theory Spec2Isabelle
  imports Main "HOL-Library.AList"
begin

section \<open>Data model\<close>

text \<open>
  A lane is a bit of a register: \<open>Qubit r i\<close> or \<open>Clbit r i\<close>, the \<open>i\<close>-th bit of the
  register named \<open>r\<close>. The two constructors are the two answers of
  \<^verbatim>\<open>isinstance(b, Qubit)\<close> and \<^verbatim>\<open>isinstance(b, Clbit)\<close>.
\<close>

datatype bit = Qubit string nat | Clbit string nat

fun is_Qubit :: "bit \<Rightarrow> bool" where
  "is_Qubit (Qubit r i) = True"
| "is_Qubit (Clbit r i) = False"

fun is_Clbit :: "bit \<Rightarrow> bool" where
  "is_Clbit (Qubit r i) = False"
| "is_Clbit (Clbit r i) = True"

text \<open>
  An operation object. \<open>op_class\<close> is what \<^verbatim>\<open>isinstance(op, Delay)\<close> reads: \<open>Delay\<close>
  or any other instruction (with its name). \<open>op_duration\<close> and \<open>op_unit\<close> are the
  attributes \<^verbatim>\<open>op.duration\<close> and \<^verbatim>\<open>op.unit\<close>; \<open>None\<close> is Python's \<^verbatim>\<open>None\<close>.
  Durations are integers, as in the discrete-step unit \<open>dt\<close>; the floating-point
  durations of the continuous units are not modelled.
\<close>

datatype op_class = Delay | Other string

record instruction =
  op_class :: op_class
  op_duration :: "int option"
  op_unit :: "string option"

text \<open>
  Python variables hold references to operation objects. The store maps an address (an
  index) to the object found there; a node of a graph holds the address of its operation,
  so two nodes holding the same address share one object.
\<close>

type_synonym store = "instruction list"

record node =
  op :: nat
  qargs :: "bit list"
  cargs :: "bit list"
  condition :: "(string \<times> nat) option"

text \<open>
  The graph. \<open>qregs\<close> and \<open>cregs\<close> are the dictionaries from a register's name to the
  register (here: to its size), as association lists. \<open>op_nodes\<close> are the operation nodes
  in the order \<^verbatim>\<open>topological_op_nodes()\<close> yields them; per wire, that is the order of
  the wire. \<open>duration\<close> is \<open>None\<close> for a graph that was never scheduled.
\<close>

record dag =
  name :: "string option"
  qregs :: "(string \<times> nat) list"
  cregs :: "(string \<times> nat) list"
  op_nodes :: "node list"
  duration :: "int option"
  unit :: "string option"

datatype error = TranspilerError | DurationLookupError | ValueError | TypeError

definition qubits :: "dag \<Rightarrow> bit list" where
  "qubits d = concat (map (\<lambda>(r, n). map (Qubit r) [0..<n]) (qregs d))"

definition clbits :: "dag \<Rightarrow> bit list" where
  "clbits d = concat (map (\<lambda>(r, n). map (Clbit r) [0..<n]) (cregs d))"

definition node_bits :: "node \<Rightarrow> bit list" where
  "node_bits n = qargs n @ cargs n"

text \<open>
  Modelled from the spec: the graph class is not among the sources. Its surface is
  ``per-lane ordered traversal restricted to operation nodes'', ``remove-node(handle)''
  and ``append-operation-at-end(payload, quantum lanes, classical lanes, condition)'',
  where the lanes of a node are its quantum and classical operands. The payload handed to
  \<open>apply_operation_back\<close> is the reference the caller holds: the new node carries the same
  operation object.
\<close>

definition nodes_on_wire :: "dag \<Rightarrow> bit \<Rightarrow> node list" where
  "nodes_on_wire d w = filter (\<lambda>n. w \<in> set (node_bits n)) (op_nodes d)"

definition remove_op_node :: "node \<Rightarrow> dag \<Rightarrow> dag" where
  "remove_op_node n d = d\<lparr>op_nodes := remove1 n (op_nodes d)\<rparr>"

definition apply_operation_back :: "dag \<Rightarrow> nat \<Rightarrow> bit list \<Rightarrow> bit list \<Rightarrow> (string \<times> nat) option \<Rightarrow> dag" where
  "apply_operation_back d r qs cs c =
     d\<lparr>op_nodes := op_nodes d @ [\<lparr>op = r, qargs = qs, cargs = cs, condition = c\<rparr>]\<rparr>"

definition add_qreg :: "dag \<Rightarrow> string \<times> nat \<Rightarrow> dag" where
  "add_qreg d r = d\<lparr>qregs := qregs d @ [r]\<rparr>"

definition add_creg :: "dag \<Rightarrow> string \<times> nat \<Rightarrow> dag" where
  "add_creg d r = d\<lparr>cregs := cregs d @ [r]\<rparr>"

definition DAGCircuit :: dag where
  "DAGCircuit = \<lparr>name = None, qregs = [], cregs = [], op_nodes = [], duration = None, unit = None\<rparr>"

section \<open>RemoveDelaysOnIdleQubits\<close>

definition is_Delay :: "store \<Rightarrow> node \<Rightarrow> bool" where
  "is_Delay h n = (op_class (h ! op n) = Delay)"

text \<open>The inner loop that looks for an operation that is not a \<open>Delay\<close> on wire \<open>q\<close>.\<close>

definition idling :: "store \<Rightarrow> dag \<Rightarrow> bit \<Rightarrow> bool" where
  "idling h d q = list_all (is_Delay h) (nodes_on_wire d q)"

text \<open>One round of the loop over \<^verbatim>\<open>dag.qubits\<close>; the state is \<open>(removed, dag)\<close>.\<close>

definition remove_step :: "store \<Rightarrow> bit \<Rightarrow> bool \<times> dag \<Rightarrow> bool \<times> dag" where
  "remove_step h q = (\<lambda>(removed, d).
     if idling h d q then (True, fold remove_op_node (nodes_on_wire d q) d)
     else (removed, d))"

text \<open>Python's \<^verbatim>\<open>sum\<close> of a list, from 0: adding \<^verbatim>\<open>None\<close> raises \<open>TypeError\<close> (\<open>None\<close> here).\<close>

fun py_sum :: "int \<Rightarrow> int option list \<Rightarrow> int option" where
  "py_sum acc [] = Some acc"
| "py_sum acc (None # xs) = None"
| "py_sum acc (Some v # xs) = py_sum (acc + v) xs"

definition per_qubit :: "store \<Rightarrow> dag \<Rightarrow> bit \<Rightarrow> int option" where
  "per_qubit h d q = py_sum 0 (map (\<lambda>n. op_duration (h ! op n)) (nodes_on_wire d q))"

text \<open>The loop that recomputes the duration, from \<open>circuit_duration = cd\<close>.\<close>

fun circuit_duration :: "store \<Rightarrow> dag \<Rightarrow> bit list \<Rightarrow> int \<Rightarrow> int option" where
  "circuit_duration h d [] cd = Some cd"
| "circuit_duration h d (q # qs) cd =
     (case per_qubit h d q of
        None \<Rightarrow> None
      | Some p \<Rightarrow> circuit_duration h d qs (max p cd))"

text \<open>
  The pass changes its argument in place and returns it. The model returns the error
  raised, if any, and the state of the graph when the call ends.
\<close>

definition RemoveDelaysOnIdleQubits_run :: "store \<Rightarrow> dag \<Rightarrow> error option \<times> dag" where
  "RemoveDelaysOnIdleQubits_run h d =
     (if duration d = None then (Some TranspilerError, d)
      else
        let (removed, d1) = fold (remove_step h) (qubits d) (False, d) in
        if removed then
          (case circuit_duration h d1 (qubits d1) 0 of
             None \<Rightarrow> (Some TypeError, d1)
           | Some cd \<Rightarrow> (None, d1\<lparr>duration := Some cd\<rparr>))
        else (None, d1))"

section \<open>ASAPSchedule\<close>

text \<open>
  \<^verbatim>\<open>bit_time_available\<close> is a \<^verbatim>\<open>defaultdict(int)\<close>: an association list in the order
  of insertion. Reading it at \<open>b\<close> gives \<open>avail tt b\<close>, which is 0 for a key that is absent,
  and inserts such a key with 0 (\<open>touch\<close>).
\<close>

type_synonym time_table = "(bit \<times> int) list"

definition avail :: "time_table \<Rightarrow> bit \<Rightarrow> int" where
  "avail tt b = (case map_of tt b of None \<Rightarrow> 0 | Some t \<Rightarrow> t)"

definition touch :: "bit \<Rightarrow> time_table \<Rightarrow> time_table" where
  "touch b tt = (case map_of tt b of None \<Rightarrow> tt @ [(b, 0)] | Some t \<Rightarrow> tt)"

text \<open>
  The state of a run: the store of operation objects, the graph being built, the time
  table, and \<open>start_times\<close>. The last is not a variable of the source: it records, for each
  node of \<open>new_dag\<close> in order, the time at which the node was placed (\<^verbatim>\<open>start_time\<close> for
  an operation, \<^verbatim>\<open>bit_time_available[b]\<close> for a delay), so that statements about start
  times can be written down. Nothing reads it.
\<close>

record sched =
  heap :: store
  new_dag :: dag
  bit_time_available :: time_table
  start_times :: "int list"

text \<open>\<^verbatim>\<open>Delay(idle_duration, unit, ...)\<close>: a new delay object.\<close>

definition new_Delay :: "int \<Rightarrow> string option \<Rightarrow> instruction" where
  "new_Delay d u = \<lparr>op_class = Delay, op_duration = Some d, op_unit = u\<rparr>"

fun pad_with_delays :: "bit list \<Rightarrow> int \<Rightarrow> string option \<Rightarrow> sched \<Rightarrow> sched" where
  "pad_with_delays [] until u s = s"
| "pad_with_delays (b # bs) until u s =
     (let t = avail (bit_time_available s) b;
          s1 = s\<lparr>bit_time_available := touch b (bit_time_available s)\<rparr>;
          s2 = (if t < until then
                  s1\<lparr>heap := heap s1 @ [new_Delay (until - t) u],
                     new_dag := apply_operation_back (new_dag s1) (length (heap s1))
                        (if is_Qubit b then [b] else []) (if is_Clbit b then [b] else []) None,
                     start_times := start_times s1 @ [t]\<rparr>
                else s1)
      in pad_with_delays bs until u s2)"

text \<open>Python's \<^verbatim>\<open>max\<close> of a sequence: \<open>ValueError\<close> if it is empty.\<close>

fun py_max :: "int list \<Rightarrow> error + int" where
  "py_max [] = Inl ValueError"
| "py_max (x # xs) = Inr (fold max xs x)"

text \<open>
  The body of the loop over \<^verbatim>\<open>dag.topological_op_nodes()\<close>, for one node. \<open>durations\<close> is
  \<^verbatim>\<open>self.durations.get\<close>, a parameter: \<open>None\<close> when it cannot resolve the duration. The
  node appended to \<open>new_dag\<close> carries the operation object of the node read, and the two
  assignments to \<^verbatim>\<open>new_node.op\<close> write into that object.
\<close>

definition schedule_node ::
  "(instruction \<Rightarrow> bit list \<Rightarrow> string option \<Rightarrow> int option) \<Rightarrow> string option \<Rightarrow> node \<Rightarrow> sched \<Rightarrow> error + sched" where
  "schedule_node durations time_unit n s =
     (case py_max (map (avail (bit_time_available s)) (node_bits n)) of
        Inl e \<Rightarrow> Inl e
      | Inr start_time \<Rightarrow>
          (let s1 = pad_with_delays (node_bits n) start_time time_unit
                     (s\<lparr>bit_time_available := fold touch (node_bits n) (bit_time_available s)\<rparr>);
               s2 = s1\<lparr>new_dag := apply_operation_back (new_dag s1) (op n) (qargs n) (cargs n) (condition n),
                       start_times := start_times s1 @ [start_time]\<rparr>
           in (case durations (heap s2 ! op n) (qargs n) time_unit of
                 None \<Rightarrow> Inl DurationLookupError
               | Some d \<Rightarrow>
                   Inr (s2\<lparr>heap := list_update (heap s2) (op n)
                                    ((heap s2 ! op n)\<lparr>op_duration := Some d, op_unit := time_unit\<rparr>),
                           bit_time_available :=
                             fold (\<lambda>b. AList.update b (start_time + d)) (node_bits n)
                               (bit_time_available s2)\<rparr>))))"

fun schedule_nodes ::
  "(instruction \<Rightarrow> bit list \<Rightarrow> string option \<Rightarrow> int option) \<Rightarrow> string option \<Rightarrow> node list \<Rightarrow> sched \<Rightarrow> error + sched" where
  "schedule_nodes durations time_unit [] s = Inr s"
| "schedule_nodes durations time_unit (n # ns) s =
     (case schedule_node durations time_unit n s of
        Inl e \<Rightarrow> Inl e
      | Inr s' \<Rightarrow> schedule_nodes durations time_unit ns s')"

text \<open>\<^verbatim>\<open>if not time_unit: time_unit = self.property_set['time_unit']\<close>.\<close>

definition resolve_time_unit :: "string option \<Rightarrow> string option \<Rightarrow> string option" where
  "resolve_time_unit time_unit property_set_time_unit =
     (if time_unit = None \<or> time_unit = Some [] then property_set_time_unit else time_unit)"

definition initial_sched :: "store \<Rightarrow> dag \<Rightarrow> sched" where
  "initial_sched h dag =
     \<lparr>heap = h,
      new_dag = fold (\<lambda>creg d. add_creg d creg) (cregs dag)
                  (fold (\<lambda>qreg d. add_qreg d qreg) (qregs dag) DAGCircuit),
      bit_time_available = [],
      start_times = []\<rparr>"

text \<open>
  The part of \<^verbatim>\<open>run\<close> after the loop over the nodes: \<open>cd\<close> is \<^verbatim>\<open>circuit_duration\<close>.
\<close>

definition finish :: "dag \<Rightarrow> string option \<Rightarrow> sched \<Rightarrow> error + sched" where
  "finish dag time_unit s =
     (let working_bits = map fst (bit_time_available s) in
      case py_max (map (avail (bit_time_available s)) working_bits) of
        Inl e \<Rightarrow> Inl e
      | Inr cd \<Rightarrow>
          (let s1 = pad_with_delays (qubits (new_dag s)) cd time_unit s;
               s2 = pad_with_delays (clbits (new_dag s1)) cd time_unit s1
           in Inr (s2\<lparr>new_dag := (new_dag s2)\<lparr>name := name dag, duration := Some cd, unit := time_unit\<rparr>\<rparr>)))"

text \<open>
  \<^verbatim>\<open>ASAPSchedule.run\<close>, from the store \<open>h\<close>. The source returns \<^verbatim>\<open>new_dag\<close>; the model
  returns the whole state at that moment, of which \<open>new_dag\<close> is the graph returned and
  \<open>heap\<close> the operation objects as the run leaves them.
\<close>

definition ASAPSchedule_run ::
  "(instruction \<Rightarrow> bit list \<Rightarrow> string option \<Rightarrow> int option) \<Rightarrow> string option \<Rightarrow> store \<Rightarrow> dag \<Rightarrow> string option \<Rightarrow> error + sched" where
  "ASAPSchedule_run durations property_set_time_unit h dag time_unit =
     (if length (qregs dag) \<noteq> 1 \<or> map_of (qregs dag) ''q'' = None then Inl TranspilerError
      else
        (let time_unit = resolve_time_unit time_unit property_set_time_unit in
         (case schedule_nodes durations time_unit (op_nodes dag) (initial_sched h dag) of
            Inl e \<Rightarrow> Inl e
          | Inr s \<Rightarrow> finish dag time_unit s)))"

section \<open>Auxiliary notions for the proofs\<close>

text \<open>
  \<open>keep h d qs n\<close>: node \<open>n\<close> lies on none of the wires among \<open>qs\<close> that idle in \<open>d\<close>.
  \<open>removed_dag\<close> is the graph without the nodes on idling qubit wires, and \<open>lane_sum\<close> the
  sum of the durations of the operations on a wire.
\<close>

definition keep :: "store \<Rightarrow> dag \<Rightarrow> bit list \<Rightarrow> node \<Rightarrow> bool" where
  "keep h d qs n = (\<forall>q\<in>set qs. q \<in> set (node_bits n) \<longrightarrow> \<not> idling h d q)"

definition removed_dag :: "store \<Rightarrow> dag \<Rightarrow> dag" where
  "removed_dag h d = d\<lparr>op_nodes := filter (keep h d (qubits d)) (op_nodes d)\<rparr>"

definition lane_sum :: "store \<Rightarrow> dag \<Rightarrow> bit \<Rightarrow> int" where
  "lane_sum h d q = sum_list (map (\<lambda>n. the (op_duration (h ! op n))) (nodes_on_wire d q))"

text \<open>
  A lane as a reader of the state sees it: for each node on wire \<open>b\<close>, in the order of the
  wire, the time at which the node was placed, the lanes of the node and its operation
  object. The lanes of a node are its operands, the lanes line 74 reads; a condition puts
  the node on no lane here, so the statements about whole lanes of a returned graph are
  made for graphs without conditions.
\<close>

type_synonym entry = "int \<times> bit list \<times> instruction"

definition lane_view :: "store \<Rightarrow> node list \<Rightarrow> int list \<Rightarrow> bit \<Rightarrow> entry list" where
  "lane_view h ns ts b =
     map (\<lambda>(n, t). (t, node_bits n, h ! op n)) (filter (\<lambda>(n, t). b \<in> set (node_bits n)) (zip ns ts))"

definition lane :: "sched \<Rightarrow> bit \<Rightarrow> entry list" where
  "lane s b = lane_view (heap s) (op_nodes (new_dag s)) (start_times s) b"

definition entry_start :: "entry \<Rightarrow> int" where
  "entry_start e = fst e"

definition entry_op :: "entry \<Rightarrow> instruction" where
  "entry_op e = snd (snd e)"

definition entry_duration :: "entry \<Rightarrow> int" where
  "entry_duration e = the (op_duration (entry_op e))"

text \<open>The end of the last operation of a lane.\<close>

definition last_end :: "entry list \<Rightarrow> int" where
  "last_end es = entry_start (last es) + entry_duration (last es)"

text \<open>
  \<open>lane_end t es = Some e\<close>: the entries follow one another from time \<open>t\<close> without gap or
  overlap, with durations that are set and not negative, and the last one ends at \<open>e\<close>.
\<close>

fun lane_end :: "int \<Rightarrow> entry list \<Rightarrow> int option" where
  "lane_end t [] = Some t"
| "lane_end t ((st, bs, i) # es) =
     (case op_duration i of
        None \<Rightarrow> None
      | Some d \<Rightarrow> if st = t \<and> 0 \<le> d then lane_end (st + d) es else None)"

text \<open>
  What the scheduler may expect of its input. Every node refers to an object of the store
  and lies on pairwise different lanes, all of them lanes of the graph. Every node has an
  operation object of its own, so that it carries its own duration, as a node of the
  specification's data model does: line 81 writes the duration into the object, and a
  second node holding the same object would replace what the first one wrote. The names of
  the classical registers are the keys of a dictionary. And the duration provider returns
  no negative duration.
\<close>

definition wf_input :: "store \<Rightarrow> dag \<Rightarrow> bool" where
  "wf_input h dag \<longleftrightarrow>
     (\<forall>n\<in>set (op_nodes dag). op n < length h \<and> distinct (node_bits n) \<and>
        set (node_bits n) \<subseteq> set (qubits dag @ clbits dag)) \<and>
     distinct (map op (op_nodes dag)) \<and>
     distinct (map fst (cregs dag))"

definition nonneg_durations :: "(instruction \<Rightarrow> bit list \<Rightarrow> string option \<Rightarrow> int option) \<Rightarrow> bool" where
  "nonneg_durations durations \<longleftrightarrow> (\<forall>i qs u d. durations i qs u = Some d \<longrightarrow> 0 \<le> d)"

text \<open>
  For the proofs: one round of \<open>pad_with_delays\<close> (\<open>pad1\<close>), the state of \<open>schedule_node\<close>
  after the padding (\<open>padded\<close>) and at its end (\<open>placed\<close>), and the invariant of the loop
  over the nodes, \<open>ns\<close> being the nodes still to come and \<open>L\<close> the lanes of the graph.
\<close>

definition pad1 :: "bit \<Rightarrow> int \<Rightarrow> string option \<Rightarrow> sched \<Rightarrow> sched" where
  "pad1 b until u s =
     (if avail (bit_time_available s) b < until then
        s\<lparr>bit_time_available := touch b (bit_time_available s),
          heap := heap s @ [new_Delay (until - avail (bit_time_available s) b) u],
          new_dag := apply_operation_back (new_dag s) (length (heap s))
             (if is_Qubit b then [b] else []) (if is_Clbit b then [b] else []) None,
          start_times := start_times s @ [avail (bit_time_available s) b]\<rparr>
      else s\<lparr>bit_time_available := touch b (bit_time_available s)\<rparr>)"

definition padded :: "string option \<Rightarrow> node \<Rightarrow> sched \<Rightarrow> sched" where
  "padded u n s = pad_with_delays (node_bits n) (Max (avail (bit_time_available s) ` set (node_bits n))) u
     (s\<lparr>bit_time_available := fold touch (node_bits n) (bit_time_available s)\<rparr>)"

definition placed :: "string option \<Rightarrow> node \<Rightarrow> int \<Rightarrow> sched \<Rightarrow> sched" where
  "placed u n d s =
     (let start = Max (avail (bit_time_available s) ` set (node_bits n)); s1 = padded u n s in
      s1\<lparr>new_dag := apply_operation_back (new_dag s1) (op n) (qargs n) (cargs n) (condition n),
         start_times := start_times s1 @ [start],
         heap := list_update (heap s1) (op n) ((heap s ! op n)\<lparr>op_duration := Some d, op_unit := u\<rparr>),
         bit_time_available := fold (\<lambda>b. AList.update b (start + d)) (node_bits n) (bit_time_available s1)\<rparr>)"

definition consistent :: "sched \<Rightarrow> bool" where
  "consistent s \<longleftrightarrow> length (start_times s) = length (op_nodes (new_dag s)) \<and>
     (\<forall>m\<in>set (op_nodes (new_dag s)). op m < length (heap s))"

definition sched_inv :: "bit set \<Rightarrow> node list \<Rightarrow> sched \<Rightarrow> bool" where
  "sched_inv L ns s \<longleftrightarrow>
     consistent s \<and>
     (\<forall>m\<in>set (op_nodes (new_dag s)). op m \<notin> op ` set ns) \<and>
     (\<forall>n\<in>set ns. op n < length (heap s)) \<and>
     (\<forall>b. lane_end 0 (lane s b) = Some (avail (bit_time_available s) b)) \<and>
     (\<forall>b. 0 \<le> avail (bit_time_available s) b) \<and>
     (\<forall>b\<in>fst ` set (bit_time_available s). lane s b \<noteq> []) \<and>
     (\<forall>b. lane s b \<noteq> [] \<longrightarrow> b \<in> L)"

definition timed :: "string option \<Rightarrow> instruction \<Rightarrow> bool" where
  "timed u x \<longleftrightarrow> op_unit x = u \<and> op_duration x \<noteq> None"

text \<open>
  A graph whose nodes carry no classical condition. For such a graph the lanes of a node,
  its quantum and classical operands, are all the wires the node lies on.
\<close>

definition unconditioned :: "dag \<Rightarrow> bool" where
  "unconditioned dag \<longleftrightarrow> (\<forall>n\<in>set (op_nodes dag). condition n = None)"

text \<open>
  What lines 79 to 82 do to the operation object of one node, seen from the store alone:
  the object gets the duration the provider resolves for it and the time unit. And what a
  reader of a graph finds in a store: the metadata, and for each node its operation
  object, its operands and its condition.
\<close>

definition assign_timing ::
  "(instruction \<Rightarrow> bit list \<Rightarrow> string option \<Rightarrow> int option) \<Rightarrow> string option \<Rightarrow> node \<Rightarrow> store \<Rightarrow> store" where
  "assign_timing durations u n h =
     list_update h (op n) ((h ! op n)\<lparr>op_duration := durations (h ! op n) (qargs n) u, op_unit := u\<rparr>)"

definition read_graph ::
  "store \<Rightarrow> dag \<Rightarrow>
   string option \<times> (string \<times> nat) list \<times> (string \<times> nat) list \<times> int option \<times> string option \<times>
   (instruction \<times> bit list \<times> bit list \<times> (string \<times> nat) option) list" where
  "read_graph h d =
     (name d, qregs d, cregs d, duration d, unit d,
      map (\<lambda>n. (h ! op n, qargs n, cargs n, condition n)) (op_nodes d))"

section \<open>Concrete graphs\<close>

text \<open>
  The circuit of \<^verbatim>\<open>test_simple_circuit\<close>: a delay of 100 and an \<open>h\<close> of duration 200 on
  qubit 0, a delay of 300 on qubit 1 and on qubit 2, scheduled with duration 300; and the
  graph the test expects.
\<close>

definition simple_circuit_store :: store where
  "simple_circuit_store =
     [\<lparr>op_class = Delay, op_duration = Some 100, op_unit = Some ''dt''\<rparr>,
      \<lparr>op_class = Other ''h'', op_duration = Some 200, op_unit = Some ''dt''\<rparr>,
      \<lparr>op_class = Delay, op_duration = Some 300, op_unit = Some ''dt''\<rparr>,
      \<lparr>op_class = Delay, op_duration = Some 300, op_unit = Some ''dt''\<rparr>]"

definition simple_circuit :: dag where
  "simple_circuit =
     \<lparr>name = None, qregs = [(''q'', 3)], cregs = [],
      op_nodes =
        [\<lparr>op = 0, qargs = [Qubit ''q'' 0], cargs = [], condition = None\<rparr>,
         \<lparr>op = 1, qargs = [Qubit ''q'' 0], cargs = [], condition = None\<rparr>,
         \<lparr>op = 2, qargs = [Qubit ''q'' 1], cargs = [], condition = None\<rparr>,
         \<lparr>op = 3, qargs = [Qubit ''q'' 2], cargs = [], condition = None\<rparr>],
      duration = Some 300, unit = Some ''dt''\<rparr>"

definition simple_circuit_expected :: dag where
  "simple_circuit_expected =
     \<lparr>name = None, qregs = [(''q'', 3)], cregs = [],
      op_nodes =
        [\<lparr>op = 0, qargs = [Qubit ''q'' 0], cargs = [], condition = None\<rparr>,
         \<lparr>op = 1, qargs = [Qubit ''q'' 0], cargs = [], condition = None\<rparr>],
      duration = Some 300, unit = Some ''dt''\<rparr>"

text \<open>
  The circuit of \<^verbatim>\<open>test_circuits_with_only_delays\<close>: delays of 100 and 100 on qubit 0
  and a delay of 200 on qubit 1, scheduled with duration 200. The test expects the empty
  circuit with duration 0.
\<close>

definition only_delays_store :: store where
  "only_delays_store =
     [\<lparr>op_class = Delay, op_duration = Some 100, op_unit = Some ''dt''\<rparr>,
      \<lparr>op_class = Delay, op_duration = Some 100, op_unit = Some ''dt''\<rparr>,
      \<lparr>op_class = Delay, op_duration = Some 200, op_unit = Some ''dt''\<rparr>]"

definition only_delays :: dag where
  "only_delays =
     \<lparr>name = None, qregs = [(''q'', 2)], cregs = [],
      op_nodes =
        [\<lparr>op = 0, qargs = [Qubit ''q'' 0], cargs = [], condition = None\<rparr>,
         \<lparr>op = 1, qargs = [Qubit ''q'' 0], cargs = [], condition = None\<rparr>,
         \<lparr>op = 2, qargs = [Qubit ''q'' 1], cargs = [], condition = None\<rparr>],
      duration = Some 200, unit = Some ''dt''\<rparr>"

text \<open>
  A scheduled graph with one qubit and one classical bit: a delay of 5 on the qubit and a
  delay of 5 on the classical bit, duration 5.
\<close>

definition padded_delay_store :: store where
  "padded_delay_store =
     [\<lparr>op_class = Delay, op_duration = Some 5, op_unit = Some ''dt''\<rparr>,
      \<lparr>op_class = Delay, op_duration = Some 5, op_unit = Some ''dt''\<rparr>]"

definition padded_delay :: dag where
  "padded_delay =
     \<lparr>name = None, qregs = [(''q'', 1)], cregs = [(''c'', 1)],
      op_nodes =
        [\<lparr>op = 0, qargs = [Qubit ''q'' 0], cargs = [], condition = None\<rparr>,
         \<lparr>op = 1, qargs = [], cargs = [Clbit ''c'' 0], condition = None\<rparr>],
      duration = Some 5, unit = Some ''dt''\<rparr>"

text \<open>
  A graph with duration 10 whose second qubit carries no operation.
\<close>

definition idle_lane_store :: store where
  "idle_lane_store = [\<lparr>op_class = Other ''h'', op_duration = Some 4, op_unit = Some ''dt''\<rparr>]"

definition idle_lane :: dag where
  "idle_lane =
     \<lparr>name = None, qregs = [(''q'', 2)], cregs = [],
      op_nodes = [\<lparr>op = 0, qargs = [Qubit ''q'' 0], cargs = [], condition = None\<rparr>],
      duration = Some 10, unit = Some ''dt''\<rparr>"

text \<open>
  Scenario A of the specification: three qubits; \<open>op1\<close> on qubit 0 (duration 5), \<open>op2\<close> on
  qubits 0 and 1 (duration 3), \<open>op3\<close> on qubit 2 (duration 2); the state that \<open>run\<close>
  returns, and the states of the loop after \<open>op1\<close> and after \<open>op2\<close>.
\<close>

definition scenario_A_store :: store where
  "scenario_A_store =
     [\<lparr>op_class = Other ''op1'', op_duration = None, op_unit = None\<rparr>,
      \<lparr>op_class = Other ''op2'', op_duration = None, op_unit = None\<rparr>,
      \<lparr>op_class = Other ''op3'', op_duration = None, op_unit = None\<rparr>]"

definition scenario_A :: dag where
  "scenario_A =
     \<lparr>name = Some ''A'', qregs = [(''q'', 3)], cregs = [],
      op_nodes =
        [\<lparr>op = 0, qargs = [Qubit ''q'' 0], cargs = [], condition = None\<rparr>,
         \<lparr>op = 1, qargs = [Qubit ''q'' 0, Qubit ''q'' 1], cargs = [], condition = None\<rparr>,
         \<lparr>op = 2, qargs = [Qubit ''q'' 2], cargs = [], condition = None\<rparr>],
      duration = None, unit = None\<rparr>"

definition scenario_A_durations :: "instruction \<Rightarrow> bit list \<Rightarrow> string option \<Rightarrow> int option" where
  "scenario_A_durations i qs u =
     (if op_class i = Other ''op1'' then Some 5
      else if op_class i = Other ''op2'' then Some 3
      else if op_class i = Other ''op3'' then Some 2
      else None)"

definition scenario_A_scheduled :: sched where
  "scenario_A_scheduled =
     \<lparr>heap =
        [\<lparr>op_class = Other ''op1'', op_duration = Some 5, op_unit = Some ''dt''\<rparr>,
         \<lparr>op_class = Other ''op2'', op_duration = Some 3, op_unit = Some ''dt''\<rparr>,
         \<lparr>op_class = Other ''op3'', op_duration = Some 2, op_unit = Some ''dt''\<rparr>,
         \<lparr>op_class = Delay, op_duration = Some 5, op_unit = Some ''dt''\<rparr>,
         \<lparr>op_class = Delay, op_duration = Some 6, op_unit = Some ''dt''\<rparr>],
      new_dag =
        \<lparr>name = Some ''A'', qregs = [(''q'', 3)], cregs = [],
         op_nodes =
           [\<lparr>op = 0, qargs = [Qubit ''q'' 0], cargs = [], condition = None\<rparr>,
            \<lparr>op = 3, qargs = [Qubit ''q'' 1], cargs = [], condition = None\<rparr>,
            \<lparr>op = 1, qargs = [Qubit ''q'' 0, Qubit ''q'' 1], cargs = [], condition = None\<rparr>,
            \<lparr>op = 2, qargs = [Qubit ''q'' 2], cargs = [], condition = None\<rparr>,
            \<lparr>op = 4, qargs = [Qubit ''q'' 2], cargs = [], condition = None\<rparr>],
         duration = Some 8, unit = Some ''dt''\<rparr>,
      bit_time_available = [(Qubit ''q'' 0, 8), (Qubit ''q'' 1, 8), (Qubit ''q'' 2, 2)],
      start_times = [0, 0, 5, 0, 2]\<rparr>"

definition scenario_A_after_op1 :: sched where
  "scenario_A_after_op1 =
     \<lparr>heap =
        [\<lparr>op_class = Other ''op1'', op_duration = Some 5, op_unit = Some ''dt''\<rparr>,
         \<lparr>op_class = Other ''op2'', op_duration = None, op_unit = None\<rparr>,
         \<lparr>op_class = Other ''op3'', op_duration = None, op_unit = None\<rparr>],
      new_dag =
        \<lparr>name = None, qregs = [(''q'', 3)], cregs = [],
         op_nodes = [\<lparr>op = 0, qargs = [Qubit ''q'' 0], cargs = [], condition = None\<rparr>],
         duration = None, unit = None\<rparr>,
      bit_time_available = [(Qubit ''q'' 0, 5)],
      start_times = [0]\<rparr>"

definition scenario_A_after_op2 :: sched where
  "scenario_A_after_op2 =
     \<lparr>heap =
        [\<lparr>op_class = Other ''op1'', op_duration = Some 5, op_unit = Some ''dt''\<rparr>,
         \<lparr>op_class = Other ''op2'', op_duration = Some 3, op_unit = Some ''dt''\<rparr>,
         \<lparr>op_class = Other ''op3'', op_duration = None, op_unit = None\<rparr>,
         \<lparr>op_class = Delay, op_duration = Some 5, op_unit = Some ''dt''\<rparr>],
      new_dag =
        \<lparr>name = None, qregs = [(''q'', 3)], cregs = [],
         op_nodes =
           [\<lparr>op = 0, qargs = [Qubit ''q'' 0], cargs = [], condition = None\<rparr>,
            \<lparr>op = 3, qargs = [Qubit ''q'' 1], cargs = [], condition = None\<rparr>,
            \<lparr>op = 1, qargs = [Qubit ''q'' 0, Qubit ''q'' 1], cargs = [], condition = None\<rparr>],
         duration = None, unit = None\<rparr>,
      bit_time_available = [(Qubit ''q'' 0, 8), (Qubit ''q'' 1, 8)],
      start_times = [0, 0, 5]\<rparr>"

text \<open>
  Scenario B of the specification: two qubits and one operation of duration 4 on qubit 0.
  The store holds a second object, to which the graph does not refer.
\<close>

definition scenario_B_store :: store where
  "scenario_B_store =
     [\<lparr>op_class = Other ''op'', op_duration = None, op_unit = None\<rparr>,
      \<lparr>op_class = Other ''unused'', op_duration = None, op_unit = None\<rparr>]"

definition scenario_B :: dag where
  "scenario_B =
     \<lparr>name = Some ''B'', qregs = [(''q'', 2)], cregs = [],
      op_nodes = [\<lparr>op = 0, qargs = [Qubit ''q'' 0], cargs = [], condition = None\<rparr>],
      duration = None, unit = None\<rparr>"

definition scenario_B_durations :: "instruction \<Rightarrow> bit list \<Rightarrow> string option \<Rightarrow> int option" where
  "scenario_B_durations i qs u = Some 4"

definition scenario_B_scheduled :: sched where
  "scenario_B_scheduled =
     \<lparr>heap =
        [\<lparr>op_class = Other ''op'', op_duration = Some 4, op_unit = Some ''dt''\<rparr>,
         \<lparr>op_class = Other ''unused'', op_duration = None, op_unit = None\<rparr>,
         \<lparr>op_class = Delay, op_duration = Some 4, op_unit = Some ''dt''\<rparr>],
      new_dag =
        \<lparr>name = Some ''B'', qregs = [(''q'', 2)], cregs = [],
         op_nodes =
           [\<lparr>op = 0, qargs = [Qubit ''q'' 0], cargs = [], condition = None\<rparr>,
            \<lparr>op = 2, qargs = [Qubit ''q'' 1], cargs = [], condition = None\<rparr>],
         duration = Some 4, unit = Some ''dt''\<rparr>,
      bit_time_available = [(Qubit ''q'' 0, 4), (Qubit ''q'' 1, 0)],
      start_times = [0, 0]\<rparr>"

text \<open>
  Scenario A when the loop over the nodes ends, and scenario B with a provider that gives
  every operation the duration 0.
\<close>

definition scenario_A_loop_end :: sched where
  "scenario_A_loop_end =
     \<lparr>heap =
        [\<lparr>op_class = Other ''op1'', op_duration = Some 5, op_unit = Some ''dt''\<rparr>,
         \<lparr>op_class = Other ''op2'', op_duration = Some 3, op_unit = Some ''dt''\<rparr>,
         \<lparr>op_class = Other ''op3'', op_duration = Some 2, op_unit = Some ''dt''\<rparr>,
         \<lparr>op_class = Delay, op_duration = Some 5, op_unit = Some ''dt''\<rparr>],
      new_dag =
        \<lparr>name = None, qregs = [(''q'', 3)], cregs = [],
         op_nodes =
           [\<lparr>op = 0, qargs = [Qubit ''q'' 0], cargs = [], condition = None\<rparr>,
            \<lparr>op = 3, qargs = [Qubit ''q'' 1], cargs = [], condition = None\<rparr>,
            \<lparr>op = 1, qargs = [Qubit ''q'' 0, Qubit ''q'' 1], cargs = [], condition = None\<rparr>,
            \<lparr>op = 2, qargs = [Qubit ''q'' 2], cargs = [], condition = None\<rparr>],
         duration = None, unit = None\<rparr>,
      bit_time_available = [(Qubit ''q'' 0, 8), (Qubit ''q'' 1, 8), (Qubit ''q'' 2, 2)],
      start_times = [0, 0, 5, 0]\<rparr>"

definition zero_durations :: "instruction \<Rightarrow> bit list \<Rightarrow> string option \<Rightarrow> int option" where
  "zero_durations i qs u = Some 0"

definition scenario_B_zero_scheduled :: sched where
  "scenario_B_zero_scheduled =
     \<lparr>heap =
        [\<lparr>op_class = Other ''op'', op_duration = Some 0, op_unit = Some ''dt''\<rparr>,
         \<lparr>op_class = Other ''unused'', op_duration = None, op_unit = None\<rparr>],
      new_dag =
        \<lparr>name = Some ''B'', qregs = [(''q'', 2)], cregs = [],
         op_nodes = [\<lparr>op = 0, qargs = [Qubit ''q'' 0], cargs = [], condition = None\<rparr>],
         duration = Some 0, unit = Some ''dt''\<rparr>,
      bit_time_available = [(Qubit ''q'' 0, 0), (Qubit ''q'' 1, 0)],
      start_times = [0]\<rparr>"

text \<open>
  Two graphs in which two nodes hold one operation object. In \<open>shared_gate\<close> the gate \<open>g\<close>
  lies on qubit 0, where the provider gives it 5, and on qubit 1, where it gives it 7. In
  \<open>shared_tail\<close> qubit 1 carries \<open>k\<close> (duration 2) and then \<open>g\<close> (5 on qubit 1), and qubit 0
  carries the same \<open>g\<close> (7 on qubit 0). With each, the state that \<open>run\<close> returns.
\<close>

definition shared_store :: store where
  "shared_store = [\<lparr>op_class = Other ''g'', op_duration = None, op_unit = None\<rparr>]"

definition shared_gate :: dag where
  "shared_gate =
     \<lparr>name = None, qregs = [(''q'', 2)], cregs = [],
      op_nodes =
        [\<lparr>op = 0, qargs = [Qubit ''q'' 0], cargs = [], condition = None\<rparr>,
         \<lparr>op = 0, qargs = [Qubit ''q'' 1], cargs = [], condition = None\<rparr>],
      duration = None, unit = None\<rparr>"

definition shared_gate_durations :: "instruction \<Rightarrow> bit list \<Rightarrow> string option \<Rightarrow> int option" where
  "shared_gate_durations i qs u = (if qs = [Qubit ''q'' 0] then Some 5 else Some 7)"

definition shared_tail_store :: store where
  "shared_tail_store =
     [\<lparr>op_class = Other ''k'', op_duration = None, op_unit = None\<rparr>,
      \<lparr>op_class = Other ''g'', op_duration = None, op_unit = None\<rparr>]"

definition shared_tail :: dag where
  "shared_tail =
     \<lparr>name = None, qregs = [(''q'', 2)], cregs = [],
      op_nodes =
        [\<lparr>op = 0, qargs = [Qubit ''q'' 1], cargs = [], condition = None\<rparr>,
         \<lparr>op = 1, qargs = [Qubit ''q'' 1], cargs = [], condition = None\<rparr>,
         \<lparr>op = 1, qargs = [Qubit ''q'' 0], cargs = [], condition = None\<rparr>],
      duration = None, unit = None\<rparr>"

definition shared_tail_durations :: "instruction \<Rightarrow> bit list \<Rightarrow> string option \<Rightarrow> int option" where
  "shared_tail_durations i qs u =
     (if op_class i = Other ''k'' then Some 2
      else if qs = [Qubit ''q'' 0] then Some 7 else Some 5)"

definition shared_gate_scheduled :: sched where
  "shared_gate_scheduled =
     \<lparr>heap =
        [\<lparr>op_class = Other ''g'', op_duration = Some 7, op_unit = Some ''dt''\<rparr>,
         \<lparr>op_class = Delay, op_duration = Some 2, op_unit = Some ''dt''\<rparr>],
      new_dag =
        \<lparr>name = None, qregs = [(''q'', 2)], cregs = [],
         op_nodes =
           [\<lparr>op = 0, qargs = [Qubit ''q'' 0], cargs = [], condition = None\<rparr>,
            \<lparr>op = 0, qargs = [Qubit ''q'' 1], cargs = [], condition = None\<rparr>,
            \<lparr>op = 1, qargs = [Qubit ''q'' 0], cargs = [], condition = None\<rparr>],
         duration = Some 7, unit = Some ''dt''\<rparr>,
      bit_time_available = [(Qubit ''q'' 0, 5), (Qubit ''q'' 1, 7)],
      start_times = [0, 0, 5]\<rparr>"

definition shared_tail_scheduled :: sched where
  "shared_tail_scheduled =
     \<lparr>heap =
        [\<lparr>op_class = Other ''k'', op_duration = Some 2, op_unit = Some ''dt''\<rparr>,
         \<lparr>op_class = Other ''g'', op_duration = Some 7, op_unit = Some ''dt''\<rparr>],
      new_dag =
        \<lparr>name = None, qregs = [(''q'', 2)], cregs = [],
         op_nodes =
           [\<lparr>op = 0, qargs = [Qubit ''q'' 1], cargs = [], condition = None\<rparr>,
            \<lparr>op = 1, qargs = [Qubit ''q'' 1], cargs = [], condition = None\<rparr>,
            \<lparr>op = 1, qargs = [Qubit ''q'' 0], cargs = [], condition = None\<rparr>],
         duration = Some 7, unit = Some ''dt''\<rparr>,
      bit_time_available = [(Qubit ''q'' 1, 7), (Qubit ''q'' 0, 7)],
      start_times = [0, 2, 0]\<rparr>"

text \<open>
  Scenario B from a store in which the operation already has a duration of 9 seconds.
\<close>

definition preset_store :: store where
  "preset_store =
     [\<lparr>op_class = Other ''op'', op_duration = Some 9, op_unit = Some ''s''\<rparr>,
      \<lparr>op_class = Other ''unused'', op_duration = None, op_unit = None\<rparr>]"

definition preset_scheduled :: sched where
  "preset_scheduled =
     \<lparr>heap =
        [\<lparr>op_class = Other ''op'', op_duration = Some 4, op_unit = Some ''dt''\<rparr>,
         \<lparr>op_class = Other ''unused'', op_duration = None, op_unit = None\<rparr>,
         \<lparr>op_class = Delay, op_duration = Some 4, op_unit = Some ''dt''\<rparr>],
      new_dag =
        \<lparr>name = Some ''B'', qregs = [(''q'', 2)], cregs = [],
         op_nodes =
           [\<lparr>op = 0, qargs = [Qubit ''q'' 0], cargs = [], condition = None\<rparr>,
            \<lparr>op = 2, qargs = [Qubit ''q'' 1], cargs = [], condition = None\<rparr>],
         duration = Some 4, unit = Some ''dt''\<rparr>,
      bit_time_available = [(Qubit ''q'' 0, 4), (Qubit ''q'' 1, 0)],
      start_times = [0, 0]\<rparr>"

section \<open>Properties of RemoveDelaysOnIdleQubits\<close>

lemma fold_remove1_filter:
  "\<forall>y\<in>set ys. \<not> P y \<Longrightarrow> fold remove1 (filter P xs) (ys @ xs) = ys @ filter (\<lambda>x. \<not> P x) xs"
proof (induction xs arbitrary: ys)
  case Nil
  then show ?case by simp
next
  case (Cons x xs)
  show ?case
  proof (cases "P x")
    case True
    with Cons.prems have "x \<notin> set ys" by auto
    then have "remove1 x (ys @ x # xs) = ys @ xs" by (simp add: remove1_append)
    with True Cons.IH [OF Cons.prems] show ?thesis by simp
  next
    case False
    with Cons.prems have "\<forall>y\<in>set (ys @ [x]). \<not> P y" by simp
    from Cons.IH [OF this] False show ?thesis by simp
  qed
qed

lemma fold_remove_op_node:
  "fold remove_op_node ns d = d\<lparr>op_nodes := fold remove1 ns (op_nodes d)\<rparr>"
  by (induction ns arbitrary: d) (simp_all add: remove_op_node_def)

lemma remove_nodes_on_wire:
  "fold remove_op_node (nodes_on_wire d q) d =
     d\<lparr>op_nodes := filter (\<lambda>n. q \<notin> set (node_bits n)) (op_nodes d)\<rparr>"
  using fold_remove1_filter [of "[]" "\<lambda>n. q \<in> set (node_bits n)" "op_nodes d"]
  by (simp add: fold_remove_op_node nodes_on_wire_def)

lemma idling_filter:
  assumes "\<forall>n\<in>set (op_nodes d). \<not> R n \<longrightarrow> is_Delay h n"
  shows "idling h (d\<lparr>op_nodes := filter R (op_nodes d)\<rparr>) q = idling h d q"
  using assms by (auto simp: idling_def nodes_on_wire_def list_all_iff)

lemma idling_op_nodes_cong:
  "op_nodes d = op_nodes d' \<Longrightarrow> idling h d q = idling h d' q"
  by (simp add: idling_def nodes_on_wire_def)

lemma keep_Cons: "keep h d (q # qs) = (\<lambda>n. keep h d [q] n \<and> keep h d qs n)"
  by (auto simp: keep_def fun_eq_iff)

lemma keep_single_idling: "idling h d q \<Longrightarrow> keep h d [q] = (\<lambda>n. q \<notin> set (node_bits n))"
  by (auto simp: keep_def fun_eq_iff)

lemma keep_single_not_idling: "\<not> idling h d q \<Longrightarrow> keep h d [q] = (\<lambda>n. True)"
  by (auto simp: keep_def fun_eq_iff)

lemma remove_step_closed:
  "remove_step h q (r, d) =
     (r \<or> idling h d q, d\<lparr>op_nodes := filter (keep h d [q]) (op_nodes d)\<rparr>)"
proof (cases "idling h d q")
  case True
  then show ?thesis
    by (simp add: remove_step_def remove_nodes_on_wire keep_single_idling)
next
  case False
  then show ?thesis
    by (simp add: remove_step_def keep_single_not_idling)
qed

lemma keep_not_Delay:
  "n \<in> set (op_nodes d) \<Longrightarrow> \<not> keep h d qs n \<Longrightarrow> is_Delay h n"
  by (auto simp: keep_def idling_def nodes_on_wire_def list_all_iff)

lemma fold_remove_step:
  "fold (remove_step h) qs (r, d) =
     (r \<or> (\<exists>q\<in>set qs. idling h d q), d\<lparr>op_nodes := filter (keep h d qs) (op_nodes d)\<rparr>)"
proof (induction qs arbitrary: r d)
  case Nil
  then show ?case by (simp add: keep_def)
next
  case (Cons q qs)
  let ?d1 = "d\<lparr>op_nodes := filter (keep h d [q]) (op_nodes d)\<rparr>"
  have idl: "idling h ?d1 q' = idling h d q'" for q'
    by (rule idling_filter) (auto dest: keep_not_Delay)
  have k: "keep h ?d1 qs = keep h d qs"
    by (simp add: keep_def fun_eq_iff idl)
  have f: "filter (keep h d qs) (filter (keep h d [q]) (op_nodes d)) = filter (keep h d (q # qs)) (op_nodes d)"
    by (simp add: keep_Cons [of h d q qs])
  show ?case
    by (auto simp add: remove_step_closed Cons.IH idl k keep_Cons [of h d q qs])
qed

lemma qubits_op_nodes_update [simp]: "qubits (d\<lparr>op_nodes := ns\<rparr>) = qubits d"
  by (simp add: qubits_def)

lemma qubits_duration_update [simp]: "qubits (d\<lparr>duration := x\<rparr>) = qubits d"
  by (simp add: qubits_def)

lemma nodes_on_wire_duration_update [simp]:
  "nodes_on_wire (d\<lparr>duration := x\<rparr>) q = nodes_on_wire d q"
  by (simp add: nodes_on_wire_def)

lemma idling_duration_update [simp]: "idling h (d\<lparr>duration := x\<rparr>) q = idling h d q"
  by (simp add: idling_def)

lemma per_qubit_duration_update [simp]: "per_qubit h (d\<lparr>duration := x\<rparr>) q = per_qubit h d q"
  by (simp add: per_qubit_def)

lemma circuit_duration_duration_update [simp]:
  "circuit_duration h (d\<lparr>duration := x\<rparr>) qs cd = circuit_duration h d qs cd"
  by (induction qs arbitrary: cd) (simp_all split: option.splits)

lemma Max_insert_max:
  "finite S \<Longrightarrow> Max (insert (max p cd) S) = Max (insert p (insert cd S))" for p :: int
  by (cases "S = {}") (simp_all add: max.assoc)

lemma run_closed:
  assumes "duration d \<noteq> None"
  shows "RemoveDelaysOnIdleQubits_run h d =
     (if \<exists>q\<in>set (qubits d). idling h d q then
        (case circuit_duration h (removed_dag h d) (qubits d) 0 of
           None \<Rightarrow> (Some TypeError, removed_dag h d)
         | Some cd \<Rightarrow> (None, (removed_dag h d)\<lparr>duration := Some cd\<rparr>))
      else (None, removed_dag h d))"
proof -
  from assms obtain t where "duration d = Some t" by auto
  then show ?thesis
    by (simp add: RemoveDelaysOnIdleQubits_run_def fold_remove_step removed_dag_def
        split: option.splits)
qed

lemma op_nodes_run:
  "op_nodes (snd (RemoveDelaysOnIdleQubits_run h d)) =
     (if duration d = None then op_nodes d else filter (keep h d (qubits d)) (op_nodes d))"
proof (cases "duration d = None")
  case True
  then show ?thesis by (simp add: RemoveDelaysOnIdleQubits_run_def)
next
  case False
  show ?thesis
    unfolding run_closed [OF False] using False
    by (auto simp: removed_dag_def keep_def split: option.splits)
qed

lemma qubits_run: "qubits (snd (RemoveDelaysOnIdleQubits_run h d)) = qubits d"
  by (simp add: RemoveDelaysOnIdleQubits_run_def fold_remove_step split: option.splits)

lemma idling_removed_dag: "idling h (removed_dag h d) q = idling h d q"
  unfolding removed_dag_def by (rule idling_filter) (auto dest: keep_not_Delay)

lemma keep_removed_dag: "keep h (removed_dag h d) qs = keep h d qs"
  by (simp add: keep_def fun_eq_iff idling_removed_dag)

lemma removed_dag_idem: "removed_dag h (removed_dag h d) = removed_dag h d"
proof -
  have "qubits (removed_dag h d) = qubits d" by (simp add: removed_dag_def)
  then show ?thesis
    by (simp add: removed_dag_def keep_removed_dag [unfolded removed_dag_def])
qed

lemma py_sum_Some:
  "py_sum acc xs = Some r \<longleftrightarrow> None \<notin> set xs \<and> r = acc + sum_list (map the xs)"
  by (induction acc xs rule: py_sum.induct) auto

lemma per_qubit_Some:
  "per_qubit h d q = Some p \<Longrightarrow> p = lane_sum h d q"
  by (simp add: per_qubit_def py_sum_Some lane_sum_def o_def)

lemma per_qubit_total:
  "\<forall>n\<in>set (nodes_on_wire d q). op_duration (h ! op n) \<noteq> None \<Longrightarrow> \<exists>p. per_qubit h d q = Some p"
  by (auto simp: per_qubit_def py_sum_Some)

lemma circuit_duration_Some:
  "circuit_duration h d qs cd = Some r \<Longrightarrow> r = Max (insert cd (lane_sum h d ` set qs))"
proof (induction qs arbitrary: cd)
  case Nil
  then show ?case by simp
next
  case (Cons q qs)
  from Cons.prems obtain p where p: "per_qubit h d q = Some p"
    and r: "circuit_duration h d qs (max p cd) = Some r"
    by (auto split: option.splits)
  have "r = Max (insert (max p cd) (lane_sum h d ` set qs))" by (rule Cons.IH [OF r])
  also have "\<dots> = Max (insert p (insert cd (lane_sum h d ` set qs)))"
    by (rule Max_insert_max) simp
  finally show ?case using per_qubit_Some [OF p] by (simp add: insert_commute)
qed

lemma circuit_duration_total:
  "\<forall>q\<in>set qs. \<forall>n\<in>set (nodes_on_wire d q). op_duration (h ! op n) \<noteq> None
     \<Longrightarrow> \<exists>r. circuit_duration h d qs cd = Some r"
proof (induction qs arbitrary: cd)
  case Nil
  then show ?case by simp
next
  case (Cons q qs)
  then obtain p where "per_qubit h d q = Some p"
    using per_qubit_total [of d q h] by auto
  with Cons show ?case by simp
qed

lemmas run_eval = RemoveDelaysOnIdleQubits_run_def qubits_def remove_step_def idling_def
  nodes_on_wire_def node_bits_def is_Delay_def remove_op_node_def per_qubit_def

lemma upt_3: "[0..<3] = [0, 1, 2]"
  by (simp add: upt_rec)

lemma test_simple_circuit:
  "RemoveDelaysOnIdleQubits_run simple_circuit_store simple_circuit = (None, simple_circuit_expected)"
  by (simp add: run_eval simple_circuit_store_def simple_circuit_def simple_circuit_expected_def upt_3)

lemma nodes_on_wire_run_idle:
  assumes "duration d \<noteq> None" and "q \<in> set (qubits d)" and "idling h d q"
  shows "nodes_on_wire (snd (RemoveDelaysOnIdleQubits_run h d)) q = []"
proof -
  have "\<not> (q \<in> set (node_bits n) \<and> keep h d (qubits d) n)" for n
    using assms(2,3) by (auto simp: keep_def)
  then have "filter (\<lambda>n. q \<in> set (node_bits n)) (filter (keep h d (qubits d)) (op_nodes d)) = []"
    by (auto simp: filter_empty_conv)
  moreover from assms(1) have "op_nodes (snd (RemoveDelaysOnIdleQubits_run h d)) = filter (keep h d (qubits d)) (op_nodes d)"
    by (auto simp: op_nodes_run)
  ultimately show ?thesis
    by (simp add: nodes_on_wire_def del: filter_filter)
qed

lemma nodes_on_wire_run_kept:
  assumes "\<forall>n\<in>set (nodes_on_wire d w). keep h d (qubits d) n"
  shows "nodes_on_wire (snd (RemoveDelaysOnIdleQubits_run h d)) w = nodes_on_wire d w"
proof -
  have "filter (\<lambda>n. w \<in> set (node_bits n)) (filter (keep h d (qubits d)) (op_nodes d))
      = filter (\<lambda>n. w \<in> set (node_bits n)) (op_nodes d)"
    using assms by (auto simp: nodes_on_wire_def intro: filter_cong)
  then show ?thesis
    by (simp add: nodes_on_wire_def op_nodes_run)
qed

lemma keep_non_Delay:
  "\<not> is_Delay h n \<Longrightarrow> n \<in> set (op_nodes d) \<Longrightarrow> keep h d qs n"
  by (auto simp: keep_def idling_def nodes_on_wire_def list_all_iff)

lemma is_Qubit_qubits: "b \<in> set (qubits d) \<Longrightarrow> is_Qubit b"
  by (auto simp: qubits_def)

lemma keep_classical:
  "list_all is_Clbit (node_bits n) \<Longrightarrow> keep h d (qubits d) n"
proof -
  have "\<not> (is_Qubit b \<and> is_Clbit b)" for b by (cases b) simp_all
  then show "list_all is_Clbit (node_bits n) \<Longrightarrow> keep h d (qubits d) n"
    by (auto simp: keep_def list_all_iff dest: is_Qubit_qubits)
qed

text \<open>
  Claim C4, as the code has it. For a scheduled graph and a quantum lane \<open>q\<close> of it: if every
  operation on \<open>q\<close> is a \<open>Delay\<close>, no operation is left on \<open>q\<close> after the pass; if
  \<open>q\<close> carries an operation that is not a \<open>Delay\<close> (and every \<open>Delay\<close> of the graph
  lies on one lane only, as a \<open>Delay\<close> does), the operations on \<open>q\<close> are what they
  were. The pass walks \<^verbatim>\<open>dag.qubits\<close> only: a lane \<open>c\<close> whose operations all lie on
  classical bits only keeps all of them, idle or not.
\<close>

theorem C4_idle_qubit_lanes_removed:
  assumes "duration d \<noteq> None" and "q \<in> set (qubits d)"
  shows "((\<forall>n\<in>set (nodes_on_wire d q). op_class (h ! op n) = Delay) \<longrightarrow>
            nodes_on_wire (snd (RemoveDelaysOnIdleQubits_run h d)) q = [])
       \<and> ((\<exists>n\<in>set (nodes_on_wire d q). op_class (h ! op n) \<noteq> Delay) \<and>
          (\<forall>n\<in>set (op_nodes d). op_class (h ! op n) = Delay \<longrightarrow> length (node_bits n) = 1) \<longrightarrow>
            nodes_on_wire (snd (RemoveDelaysOnIdleQubits_run h d)) q = nodes_on_wire d q)
       \<and> ((\<forall>n\<in>set (nodes_on_wire d c). list_all is_Clbit (node_bits n)) \<longrightarrow>
            nodes_on_wire (snd (RemoveDelaysOnIdleQubits_run h d)) c = nodes_on_wire d c)"
proof (intro conjI impI)
  assume "\<forall>n\<in>set (nodes_on_wire d q). op_class (h ! op n) = Delay"
  then have "idling h d q" by (simp add: idling_def list_all_iff is_Delay_def)
  with assms show "nodes_on_wire (snd (RemoveDelaysOnIdleQubits_run h d)) q = []"
    by (rule nodes_on_wire_run_idle)
next
  assume a: "(\<exists>n\<in>set (nodes_on_wire d q). op_class (h ! op n) \<noteq> Delay) \<and>
          (\<forall>n\<in>set (op_nodes d). op_class (h ! op n) = Delay \<longrightarrow> length (node_bits n) = 1)"
  then have busy: "\<not> idling h d q" by (auto simp: idling_def list_all_iff is_Delay_def)
  have "keep h d (qubits d) n" if n: "n \<in> set (nodes_on_wire d q)" for n
  proof (cases "is_Delay h n")
    case True
    from n have mem: "n \<in> set (op_nodes d)" and q: "q \<in> set (node_bits n)"
      by (auto simp: nodes_on_wire_def)
    from a mem True have "length (node_bits n) = 1" by (simp add: is_Delay_def)
    with q have "node_bits n = [q]" by (cases "node_bits n") auto
    with busy show ?thesis by (simp add: keep_def)
  next
    case False
    from n have "n \<in> set (op_nodes d)" by (simp add: nodes_on_wire_def)
    with False show ?thesis by (rule keep_non_Delay)
  qed
  then show "nodes_on_wire (snd (RemoveDelaysOnIdleQubits_run h d)) q = nodes_on_wire d q"
    by (intro nodes_on_wire_run_kept) simp
next
  assume "\<forall>n\<in>set (nodes_on_wire d c). list_all is_Clbit (node_bits n)"
  then have "\<forall>n\<in>set (nodes_on_wire d c). keep h d (qubits d) n"
    by (auto intro: keep_classical)
  then show "nodes_on_wire (snd (RemoveDelaysOnIdleQubits_run h d)) c = nodes_on_wire d c"
    by (rule nodes_on_wire_run_kept)
qed

theorem C4_idle_qubit_lanes_removed_witness:
  "nodes_on_wire (snd (RemoveDelaysOnIdleQubits_run simple_circuit_store simple_circuit)) (Qubit ''q'' 1) = []
   \<and> nodes_on_wire (snd (RemoveDelaysOnIdleQubits_run simple_circuit_store simple_circuit)) (Qubit ''q'' 0)
       = nodes_on_wire simple_circuit (Qubit ''q'' 0)
   \<and> nodes_on_wire (snd (RemoveDelaysOnIdleQubits_run padded_delay_store padded_delay)) (Clbit ''c'' 0)
       = nodes_on_wire padded_delay (Clbit ''c'' 0)"
proof -
  have s: "duration simple_circuit \<noteq> None" by (simp add: simple_circuit_def)
  have q1: "Qubit ''q'' 1 \<in> set (qubits simple_circuit)"
    by (simp add: simple_circuit_def qubits_def upt_3)
  have q0: "Qubit ''q'' 0 \<in> set (qubits simple_circuit)"
    by (simp add: simple_circuit_def qubits_def upt_3)
  have idle: "\<forall>n\<in>set (nodes_on_wire simple_circuit (Qubit ''q'' 1)).
      op_class (simple_circuit_store ! op n) = Delay"
    by (simp add: simple_circuit_def simple_circuit_store_def nodes_on_wire_def node_bits_def)
  have busy: "(\<exists>n\<in>set (nodes_on_wire simple_circuit (Qubit ''q'' 0)).
      op_class (simple_circuit_store ! op n) \<noteq> Delay) \<and>
    (\<forall>n\<in>set (op_nodes simple_circuit).
      op_class (simple_circuit_store ! op n) = Delay \<longrightarrow> length (node_bits n) = 1)"
    by (simp add: simple_circuit_def simple_circuit_store_def nodes_on_wire_def node_bits_def)
  have p: "duration padded_delay \<noteq> None" by (simp add: padded_delay_def)
  have pq: "Qubit ''q'' 0 \<in> set (qubits padded_delay)"
    by (simp add: padded_delay_def qubits_def)
  have cl: "\<forall>n\<in>set (nodes_on_wire padded_delay (Clbit ''c'' 0)). list_all is_Clbit (node_bits n)"
    by (simp add: padded_delay_def nodes_on_wire_def node_bits_def)
  from C4_idle_qubit_lanes_removed [OF s q1, of simple_circuit_store "Clbit ''c'' 0"] idle
    C4_idle_qubit_lanes_removed [OF s q0, of simple_circuit_store "Clbit ''c'' 0"] busy
    C4_idle_qubit_lanes_removed [OF p pq, of padded_delay_store "Clbit ''c'' 0"] cl
  show ?thesis by blast
qed

text \<open>
  Claim C4 as stated also speaks of classical lanes. On \<open>padded_delay\<close> every operation of
  the classical lane is a \<open>Delay\<close>, and the lane still carries it after the pass.
\<close>

theorem C4_classical_lane_counterexample:
  "list_all (is_Delay padded_delay_store) (nodes_on_wire padded_delay (Clbit ''c'' 0))
   \<and> nodes_on_wire (snd (RemoveDelaysOnIdleQubits_run padded_delay_store padded_delay)) (Clbit ''c'' 0)
       = [\<lparr>op = 1, qargs = [], cargs = [Clbit ''c'' 0], condition = None\<rparr>]"
  by (simp add: run_eval padded_delay_store_def padded_delay_def)

lemma nodes_on_wire_subset: "set (nodes_on_wire d q) \<subseteq> set (op_nodes d)"
  by (auto simp: nodes_on_wire_def)

lemma op_nodes_removed_dag_subset: "set (op_nodes (removed_dag h d)) \<subseteq> set (op_nodes d)"
  by (auto simp: removed_dag_def)

lemma removed_dag_unchanged:
  "\<not> (\<exists>q\<in>set (qubits d). idling h d q) \<Longrightarrow> removed_dag h d = d"
  by (simp add: removed_dag_def keep_def)

lemma nodes_on_wire_run:
  "duration d \<noteq> None \<Longrightarrow>
   nodes_on_wire (snd (RemoveDelaysOnIdleQubits_run h d)) q = nodes_on_wire (removed_dag h d) q"
  by (auto simp: nodes_on_wire_def op_nodes_run removed_dag_def)

lemma run_recomputes:
  assumes sched: "duration d \<noteq> None"
    and durs: "\<forall>n\<in>set (op_nodes d). op_duration (h ! op n) \<noteq> None"
    and idle: "\<exists>q\<in>set (qubits d). idling h d q"
  shows "fst (RemoveDelaysOnIdleQubits_run h d) = None \<and>
     duration (snd (RemoveDelaysOnIdleQubits_run h d)) =
       Some (Max (insert 0 ((\<lambda>q. sum_list (map (\<lambda>n. the (op_duration (h ! op n)))
          (nodes_on_wire (snd (RemoveDelaysOnIdleQubits_run h d)) q))) ` set (qubits d))))"
proof -
  have "\<forall>q\<in>set (qubits d). \<forall>n\<in>set (nodes_on_wire (removed_dag h d) q). op_duration (h ! op n) \<noteq> None"
    using durs nodes_on_wire_subset [of "removed_dag h d"] op_nodes_removed_dag_subset [of h d]
    by blast
  then obtain r where r: "circuit_duration h (removed_dag h d) (qubits d) 0 = Some r"
    using circuit_duration_total by blast
  have run: "RemoveDelaysOnIdleQubits_run h d = (None, (removed_dag h d)\<lparr>duration := Some r\<rparr>)"
    using idle r by (simp add: run_closed [OF sched])
  have "r = Max (insert 0 (lane_sum h (removed_dag h d) ` set (qubits d)))"
    by (rule circuit_duration_Some [OF r])
  then show ?thesis
    by (simp add: run lane_sum_def [abs_def])
qed

lemma upt_2: "[0..<2] = [0, 1]"
  by (simp add: upt_rec)

lemma test_circuits_with_only_delays:
  "RemoveDelaysOnIdleQubits_run only_delays_store only_delays =
     (None, only_delays\<lparr>op_nodes := [], duration := Some 0\<rparr>)"
  by (simp add: run_eval only_delays_store_def only_delays_def upt_2)

lemma run_idle_lane:
  "RemoveDelaysOnIdleQubits_run idle_lane_store idle_lane = (None, idle_lane\<lparr>duration := Some 4\<rparr>)"
  by (simp add: run_eval idle_lane_store_def idle_lane_def upt_2)

lemma run_padded_delay:
  "RemoveDelaysOnIdleQubits_run padded_delay_store padded_delay =
     (None, padded_delay\<lparr>op_nodes := [\<lparr>op = 1, qargs = [], cargs = [Clbit ''c'' 0], condition = None\<rparr>],
        duration := Some 0\<rparr>)"
  by (simp add: run_eval padded_delay_store_def padded_delay_def)

text \<open>
  Claim C5, as the code has it. When the pass removes a node of a scheduled graph whose
  operations all carry a duration, it returns normally and sets the duration of the graph
  to the maximum, over the quantum lanes, of the sum of the durations of the operations
  left on the lane, and 0 if there is no such lane or operation.
\<close>

theorem C5_duration_recomputed_over_qubits:
  assumes "duration d \<noteq> None"
    and "\<forall>n\<in>set (op_nodes d). op_duration (h ! op n) \<noteq> None"
    and "op_nodes (snd (RemoveDelaysOnIdleQubits_run h d)) \<noteq> op_nodes d"
  shows "fst (RemoveDelaysOnIdleQubits_run h d) = None \<and>
     duration (snd (RemoveDelaysOnIdleQubits_run h d)) =
       Some (Max (insert 0 ((\<lambda>q. sum_list (map (\<lambda>n. the (op_duration (h ! op n)))
          (nodes_on_wire (snd (RemoveDelaysOnIdleQubits_run h d)) q))) ` set (qubits d)))) \<and>
     (op_nodes (snd (RemoveDelaysOnIdleQubits_run h d)) = [] \<longrightarrow>
        duration (snd (RemoveDelaysOnIdleQubits_run h d)) = Some 0)"
proof -
  have "\<exists>q\<in>set (qubits d). idling h d q"
  proof (rule ccontr)
    assume "\<not> (\<exists>q\<in>set (qubits d). idling h d q)"
    then have "filter (keep h d (qubits d)) (op_nodes d) = op_nodes d"
      by (simp add: keep_def)
    then have "op_nodes (snd (RemoveDelaysOnIdleQubits_run h d)) = op_nodes d"
      by (simp add: op_nodes_run)
    with assms(3) show False by simp
  qed
  with assms(1,2) have main: "fst (RemoveDelaysOnIdleQubits_run h d) = None \<and>
     duration (snd (RemoveDelaysOnIdleQubits_run h d)) =
       Some (Max (insert 0 ((\<lambda>q. sum_list (map (\<lambda>n. the (op_duration (h ! op n)))
          (nodes_on_wire (snd (RemoveDelaysOnIdleQubits_run h d)) q))) ` set (qubits d))))"
    by (rule run_recomputes)
  have "duration (snd (RemoveDelaysOnIdleQubits_run h d)) = Some 0"
    if "op_nodes (snd (RemoveDelaysOnIdleQubits_run h d)) = []"
  proof -
    from that have "nodes_on_wire (snd (RemoveDelaysOnIdleQubits_run h d)) q = []" for q
      by (simp add: nodes_on_wire_def)
    with main show ?thesis by (simp add: image_constant_conv)
  qed
  with main show ?thesis by blast
qed

theorem C5_duration_recomputed_over_qubits_witness:
  "op_nodes (snd (RemoveDelaysOnIdleQubits_run simple_circuit_store simple_circuit)) \<noteq> op_nodes simple_circuit
   \<and> fst (RemoveDelaysOnIdleQubits_run simple_circuit_store simple_circuit) = None
   \<and> duration (snd (RemoveDelaysOnIdleQubits_run simple_circuit_store simple_circuit)) = Some 300
   \<and> op_nodes (snd (RemoveDelaysOnIdleQubits_run only_delays_store only_delays)) = []
   \<and> duration (snd (RemoveDelaysOnIdleQubits_run only_delays_store only_delays)) = Some 0"
proof -
  have s: "duration simple_circuit \<noteq> None" by (simp add: simple_circuit_def)
  have d: "\<forall>n\<in>set (op_nodes simple_circuit). op_duration (simple_circuit_store ! op n) \<noteq> None"
    by (simp add: simple_circuit_def simple_circuit_store_def)
  have r: "op_nodes (snd (RemoveDelaysOnIdleQubits_run simple_circuit_store simple_circuit)) \<noteq> op_nodes simple_circuit"
    by (simp add: test_simple_circuit) (simp add: simple_circuit_def simple_circuit_expected_def)
  have m: "Max (insert 0 ((\<lambda>q. sum_list (map (\<lambda>n. the (op_duration (simple_circuit_store ! op n)))
          (nodes_on_wire (snd (RemoveDelaysOnIdleQubits_run simple_circuit_store simple_circuit)) q)))
            ` set (qubits simple_circuit))) = 300"
    by (simp add: test_simple_circuit)
      (simp add: simple_circuit_def simple_circuit_expected_def simple_circuit_store_def
         qubits_def upt_3 nodes_on_wire_def node_bits_def)
  have s': "duration only_delays \<noteq> None" by (simp add: only_delays_def)
  have d': "\<forall>n\<in>set (op_nodes only_delays). op_duration (only_delays_store ! op n) \<noteq> None"
    by (simp add: only_delays_def only_delays_store_def)
  have e: "op_nodes (snd (RemoveDelaysOnIdleQubits_run only_delays_store only_delays)) = []"
    by (simp add: test_circuits_with_only_delays)
  have r': "op_nodes (snd (RemoveDelaysOnIdleQubits_run only_delays_store only_delays)) \<noteq> op_nodes only_delays"
    unfolding e by (simp add: only_delays_def)
  from C5_duration_recomputed_over_qubits [OF s' d' r'] e
  have z: "duration (snd (RemoveDelaysOnIdleQubits_run only_delays_store only_delays)) = Some 0"
    by blast
  from C5_duration_recomputed_over_qubits [OF s d r] r m e z show ?thesis by simp
qed

text \<open>
  Claim C5 as stated takes the maximum over all lanes. On \<open>padded_delay\<close> the pass removes
  the delay on the qubit and sets the duration to 0, while the operations left on the
  classical lane sum to 5.
\<close>

theorem C5_classical_lane_counterexample:
  "op_nodes (snd (RemoveDelaysOnIdleQubits_run padded_delay_store padded_delay)) \<noteq> op_nodes padded_delay
   \<and> duration (snd (RemoveDelaysOnIdleQubits_run padded_delay_store padded_delay)) = Some 0
   \<and> lane_sum padded_delay_store (snd (RemoveDelaysOnIdleQubits_run padded_delay_store padded_delay))
        (Clbit ''c'' 0) = 5"
  by (simp add: run_padded_delay lane_sum_def nodes_on_wire_def node_bits_def)
    (simp add: padded_delay_def padded_delay_store_def)

text \<open>
  Claim C6. The pass raises \<open>TranspilerError\<close> exactly when the duration of the graph is
  \<open>None\<close>, and then the graph is as it was.
\<close>

theorem C6_unscheduled_graph_rejected:
  "(fst (RemoveDelaysOnIdleQubits_run h d) = Some TranspilerError \<longleftrightarrow> duration d = None)
   \<and> (duration d = None \<longrightarrow> snd (RemoveDelaysOnIdleQubits_run h d) = d)"
proof (cases "duration d = None")
  case True
  then show ?thesis by (simp add: RemoveDelaysOnIdleQubits_run_def)
next
  case False
  then show ?thesis
    by (auto simp: RemoveDelaysOnIdleQubits_run_def split: prod.splits option.splits)
qed

theorem C6_unscheduled_graph_rejected_witness:
  "duration (simple_circuit\<lparr>duration := None\<rparr>) = None
   \<and> fst (RemoveDelaysOnIdleQubits_run simple_circuit_store (simple_circuit\<lparr>duration := None\<rparr>))
       = Some TranspilerError
   \<and> snd (RemoveDelaysOnIdleQubits_run simple_circuit_store (simple_circuit\<lparr>duration := None\<rparr>))
       = simple_circuit\<lparr>duration := None\<rparr>
   \<and> duration simple_circuit = Some 300
   \<and> fst (RemoveDelaysOnIdleQubits_run simple_circuit_store simple_circuit) \<noteq> Some TranspilerError"
proof -
  have t: "duration simple_circuit = Some 300" by (simp add: simple_circuit_def)
  from C6_unscheduled_graph_rejected [of simple_circuit_store simple_circuit] t
  have "fst (RemoveDelaysOnIdleQubits_run simple_circuit_store simple_circuit) \<noteq> Some TranspilerError"
    by simp
  with C6_unscheduled_graph_rejected [of simple_circuit_store "simple_circuit\<lparr>duration := None\<rparr>"] t
  show ?thesis by simp
qed

text \<open>
  Claim C7. If the pass returns normally with graph \<open>d'\<close>, then running it on \<open>d'\<close>
  returns normally with \<open>d'\<close> again: no node is removed and the duration stays.
\<close>

theorem C7_run_idempotent:
  assumes "RemoveDelaysOnIdleQubits_run h d = (None, d')"
  shows "RemoveDelaysOnIdleQubits_run h d' = (None, d')"
proof -
  have sched: "duration d \<noteq> None"
    using assms by (auto simp: RemoveDelaysOnIdleQubits_run_def split: if_splits)
  show ?thesis
  proof (cases "\<exists>q\<in>set (qubits d). idling h d q")
    case True
    with assms obtain cd where cd: "circuit_duration h (removed_dag h d) (qubits d) 0 = Some cd"
      and d': "d' = (removed_dag h d)\<lparr>duration := Some cd\<rparr>"
      by (auto simp: run_closed [OF sched] split: option.splits)
    have q: "qubits d' = qubits d" by (simp add: d' removed_dag_def)
    have i: "idling h d' q = idling h d q" for q by (simp add: d' idling_removed_dag)
    have "removed_dag h d' = (removed_dag h (removed_dag h d))\<lparr>duration := Some cd\<rparr>"
      by (simp add: d' removed_dag_def keep_def)
    then have r: "removed_dag h d' = d'" by (simp add: removed_dag_idem d')
    have s: "duration d' \<noteq> None" by (simp add: d')
    have c: "circuit_duration h d' (qubits d) 0 = Some cd" by (simp add: d' cd)
    have u: "d'\<lparr>duration := Some cd\<rparr> = d'" by (simp add: d')
    from True show ?thesis
      by (simp add: run_closed [OF s] q i r c u)
  next
    case False
    with assms have d': "d' = removed_dag h d"
      by (auto simp: run_closed [OF sched])
    with False have "d' = d" by (simp add: removed_dag_unchanged)
    with assms show ?thesis by simp
  qed
qed

theorem C7_run_idempotent_witness:
  "RemoveDelaysOnIdleQubits_run simple_circuit_store simple_circuit = (None, simple_circuit_expected)
   \<and> RemoveDelaysOnIdleQubits_run simple_circuit_store simple_circuit_expected = (None, simple_circuit_expected)"
  using C7_run_idempotent [OF test_simple_circuit] test_simple_circuit by simp

text \<open>
  Claim C10. If a quantum lane of a scheduled graph (whose operations all carry a duration)
  has no operation, the pass returns normally and sets the duration to the maximum over
  the quantum lanes of the summed durations, whether or not it removes a node. And there
  is a scheduled graph whose operations the pass leaves as they are while it changes the
  duration.
\<close>

theorem C10_empty_lane_recomputes_duration:
  assumes "duration d \<noteq> None"
    and "\<forall>n\<in>set (op_nodes d). op_duration (h ! op n) \<noteq> None"
    and "q \<in> set (qubits d)" and "nodes_on_wire d q = []"
  shows "fst (RemoveDelaysOnIdleQubits_run h d) = None \<and>
     duration (snd (RemoveDelaysOnIdleQubits_run h d)) =
       Some (Max (insert 0 ((\<lambda>q. sum_list (map (\<lambda>n. the (op_duration (h ! op n)))
          (nodes_on_wire (snd (RemoveDelaysOnIdleQubits_run h d)) q))) ` set (qubits d)))) \<and>
     (\<exists>h' d'. duration d' \<noteq> None \<and>
        op_nodes (snd (RemoveDelaysOnIdleQubits_run h' d')) = op_nodes d' \<and>
        duration (snd (RemoveDelaysOnIdleQubits_run h' d')) \<noteq> duration d')"
proof -
  from assms(4) have "idling h d q" by (simp add: idling_def)
  with assms(3) have "\<exists>q\<in>set (qubits d). idling h d q" ..
  with assms(1,2) have main: "fst (RemoveDelaysOnIdleQubits_run h d) = None \<and>
     duration (snd (RemoveDelaysOnIdleQubits_run h d)) =
       Some (Max (insert 0 ((\<lambda>q. sum_list (map (\<lambda>n. the (op_duration (h ! op n)))
          (nodes_on_wire (snd (RemoveDelaysOnIdleQubits_run h d)) q))) ` set (qubits d))))"
    by (rule run_recomputes)
  have "duration idle_lane \<noteq> None \<and>
      op_nodes (snd (RemoveDelaysOnIdleQubits_run idle_lane_store idle_lane)) = op_nodes idle_lane \<and>
      duration (snd (RemoveDelaysOnIdleQubits_run idle_lane_store idle_lane)) \<noteq> duration idle_lane"
    by (simp add: run_idle_lane) (simp add: idle_lane_def)
  then have "\<exists>h' d'. duration d' \<noteq> None \<and>
        op_nodes (snd (RemoveDelaysOnIdleQubits_run h' d')) = op_nodes d' \<and>
        duration (snd (RemoveDelaysOnIdleQubits_run h' d')) \<noteq> duration d'"
    by blast
  with main show ?thesis by blast
qed

theorem C10_empty_lane_recomputes_duration_witness:
  "Qubit ''q'' 1 \<in> set (qubits idle_lane) \<and> nodes_on_wire idle_lane (Qubit ''q'' 1) = []
   \<and> op_nodes (snd (RemoveDelaysOnIdleQubits_run idle_lane_store idle_lane)) = op_nodes idle_lane
   \<and> duration idle_lane = Some 10
   \<and> duration (snd (RemoveDelaysOnIdleQubits_run idle_lane_store idle_lane)) = Some 4"
proof -
  have s: "duration idle_lane \<noteq> None" by (simp add: idle_lane_def)
  have d: "\<forall>n\<in>set (op_nodes idle_lane). op_duration (idle_lane_store ! op n) \<noteq> None"
    by (simp add: idle_lane_def idle_lane_store_def)
  have q: "Qubit ''q'' 1 \<in> set (qubits idle_lane)" by (simp add: idle_lane_def qubits_def upt_2)
  have e: "nodes_on_wire idle_lane (Qubit ''q'' 1) = []"
    by (simp add: idle_lane_def nodes_on_wire_def node_bits_def)
  have n: "op_nodes (snd (RemoveDelaysOnIdleQubits_run idle_lane_store idle_lane)) = op_nodes idle_lane"
    by (simp add: run_idle_lane)
  have m: "Max (insert 0 ((\<lambda>q. sum_list (map (\<lambda>n. the (op_duration (idle_lane_store ! op n)))
          (nodes_on_wire (snd (RemoveDelaysOnIdleQubits_run idle_lane_store idle_lane)) q)))
            ` set (qubits idle_lane))) = 4"
    by (simp add: run_idle_lane)
      (simp add: idle_lane_def idle_lane_store_def qubits_def upt_2 nodes_on_wire_def node_bits_def)
  have t: "duration idle_lane = Some 10" by (simp add: idle_lane_def)
  from C10_empty_lane_recomputes_duration [OF s d q e] q e n m t show ?thesis by simp
qed

section \<open>Properties of ASAPSchedule\<close>

text \<open>
  Claim C9. On a graph that passes the check of the registers and has no operation node,
  \<open>run\<close> raises \<open>ValueError\<close>: no graph is returned.
\<close>

theorem C9_empty_graph_raises:
  assumes "length (qregs dag) = 1" and "map_of (qregs dag) ''q'' \<noteq> None" and "op_nodes dag = []"
  shows "ASAPSchedule_run durations property_set_time_unit h dag time_unit = Inl ValueError"
  using assms by (simp add: ASAPSchedule_run_def initial_sched_def finish_def)

lemma avail_touch [simp]: "avail (touch b tt) c = avail tt c"
  by (auto simp: avail_def touch_def split: option.splits if_splits)

lemma avail_fold_touch [simp]: "avail (fold touch bs tt) c = avail tt c"
  by (induction bs arbitrary: tt) simp_all

lemma avail_update: "avail (AList.update b v tt) c = (if c = b then v else avail tt c)"
  by (simp add: avail_def update_conv')

lemma avail_fold_update:
  "avail (fold (\<lambda>b. AList.update b v) bs tt) c = (if c \<in> set bs then v else avail tt c)"
  by (induction bs arbitrary: tt) (auto simp: avail_update)

lemma fold_max_Max: "fold max xs x = Max (insert x (set xs))" for x :: int
  using Max.set_eq_fold [of x xs] by simp

lemma py_max_Inr: "py_max xs = Inr m \<longleftrightarrow> xs \<noteq> [] \<and> m = Max (set xs)"
  by (cases xs) (auto simp: fold_max_Max)

lemma py_max_Inl: "py_max xs = Inl e \<longleftrightarrow> xs = [] \<and> e = ValueError"
  by (cases xs) auto

lemma node_bits_pad [simp]:
  "node_bits \<lparr>op = r, qargs = (if is_Qubit b then [b] else []),
      cargs = (if is_Clbit b then [b] else []), condition = c\<rparr> = [b]"
  by (cases b) (simp_all add: node_bits_def)

lemma pad_with_delays_Cons:
  "pad_with_delays (b # bs) until u s = pad_with_delays bs until u (pad1 b until u s)"
  by (simp add: pad1_def Let_def)

lemma pad_with_delays_append:
  "pad_with_delays (bs @ cs) until u s = pad_with_delays cs until u (pad_with_delays bs until u s)"
  by (induction bs arbitrary: s) (simp_all add: pad_with_delays_Cons del: pad_with_delays.simps(2))

lemma lane_view_append:
  "length ns = length ts \<Longrightarrow>
   lane_view h (ns @ ns') (ts @ ts') b = lane_view h ns ts b @ lane_view h ns' ts' b"
  by (simp add: lane_view_def)

lemma lane_view_single:
  "lane_view h [n] [t] b = (if b \<in> set (node_bits n) then [(t, node_bits n, h ! op n)] else [])"
  by (simp add: lane_view_def)

lemma lane_view_cong_heap:
  assumes "\<forall>n\<in>set ns. h' ! op n = h ! op n"
  shows "lane_view h' ns ts b = lane_view h ns ts b"
proof -
  have "(n, t) \<in> set (zip ns ts) \<Longrightarrow> h' ! op n = h ! op n" for n t
    using assms by (auto dest: set_zip_leftD)
  then show ?thesis
    by (auto simp: lane_view_def)
qed

lemma avail_pad1 [simp]: "avail (bit_time_available (pad1 b until u s)) c = avail (bit_time_available s) c"
  by (simp add: pad1_def)

lemma consistent_pad1: "consistent s \<Longrightarrow> consistent (pad1 b until u s)"
  by (auto simp: consistent_def pad1_def apply_operation_back_def)

lemma lane_pad1:
  assumes "consistent s"
  shows "lane (pad1 b until u s) c =
     lane s c @ (if c = b \<and> avail (bit_time_available s) b < until
        then [(avail (bit_time_available s) b, [b], new_Delay (until - avail (bit_time_available s) b) u)]
        else [])"
proof (cases "avail (bit_time_available s) b < until")
  case True
  let ?x = "new_Delay (until - avail (bit_time_available s) b) u"
  let ?p = "\<lparr>op = length (heap s), qargs = (if is_Qubit b then [b] else []),
      cargs = (if is_Clbit b then [b] else []), condition = None\<rparr>"
  from assms have len: "length (op_nodes (new_dag s)) = length (start_times s)"
    and refs: "\<forall>m\<in>set (op_nodes (new_dag s)). (heap s @ [?x]) ! op m = heap s ! op m"
    by (auto simp: consistent_def nth_append)
  have "lane (pad1 b until u s) c
      = lane_view (heap s @ [?x]) (op_nodes (new_dag s) @ [?p])
          (start_times s @ [avail (bit_time_available s) b]) c"
    using True by (simp add: lane_def pad1_def apply_operation_back_def)
  also have "\<dots> = lane_view (heap s @ [?x]) (op_nodes (new_dag s)) (start_times s) c
      @ lane_view (heap s @ [?x]) [?p] [avail (bit_time_available s) b] c"
    by (rule lane_view_append [OF len])
  also have "lane_view (heap s @ [?x]) (op_nodes (new_dag s)) (start_times s) c = lane s c"
    unfolding lane_def by (rule lane_view_cong_heap [OF refs])
  also have "lane_view (heap s @ [?x]) [?p] [avail (bit_time_available s) b] c
      = (if c = b then [(avail (bit_time_available s) b, [b], ?x)] else [])"
    by (simp add: lane_view_single)
  finally show ?thesis using True by simp
next
  case False
  then show ?thesis by (simp add: lane_def pad1_def)
qed

lemma consistent_pad_with_delays:
  "consistent s \<Longrightarrow> consistent (pad_with_delays bs until u s)"
  by (induction bs arbitrary: s)
    (simp_all add: pad_with_delays_Cons consistent_pad1 del: pad_with_delays.simps(2))

lemma avail_pad_with_delays [simp]:
  "avail (bit_time_available (pad_with_delays bs until u s)) c = avail (bit_time_available s) c"
  by (induction bs arbitrary: s)
    (simp_all add: pad_with_delays_Cons del: pad_with_delays.simps(2))

lemma lane_pad_with_delays:
  assumes "consistent s" and "distinct bs"
  shows "lane (pad_with_delays bs until u s) c =
     lane s c @ (if c \<in> set bs \<and> avail (bit_time_available s) c < until
        then [(avail (bit_time_available s) c, [c], new_Delay (until - avail (bit_time_available s) c) u)]
        else [])"
  using assms
proof (induction bs arbitrary: s)
  case Nil
  then show ?case by simp
next
  case (Cons b bs)
  from Cons.prems have c1: "consistent (pad1 b until u s)" by (simp add: consistent_pad1)
  from Cons.prems have d: "distinct bs" and nb: "b \<notin> set bs" by simp_all
  show ?case
    unfolding pad_with_delays_Cons Cons.IH [OF c1 d] lane_pad1 [OF Cons.prems(1)]
    using nb by auto
qed

lemma heap_pad1: "\<exists>xs. heap (pad1 b until u s) = heap s @ xs"
  by (simp add: pad1_def)

lemma heap_pad_with_delays: "\<exists>xs. heap (pad_with_delays bs until u s) = heap s @ xs"
proof (induction bs arbitrary: s)
  case Nil
  then show ?case by simp
next
  case (Cons b bs)
  obtain xs where "heap (pad1 b until u s) = heap s @ xs" using heap_pad1 by blast
  moreover obtain ys where "heap (pad_with_delays bs until u (pad1 b until u s)) = heap (pad1 b until u s) @ ys"
    using Cons.IH by blast
  ultimately show ?case by (simp add: pad_with_delays_Cons del: pad_with_delays.simps(2))
qed

lemma op_nodes_pad1:
  "m \<in> set (op_nodes (new_dag (pad1 b until u s))) \<Longrightarrow>
   m \<in> set (op_nodes (new_dag s)) \<or> length (heap s) \<le> op m"
  by (auto simp: pad1_def apply_operation_back_def split: if_splits)

lemma op_nodes_pad_with_delays:
  "m \<in> set (op_nodes (new_dag (pad_with_delays bs until u s))) \<Longrightarrow>
   m \<in> set (op_nodes (new_dag s)) \<or> length (heap s) \<le> op m"
proof (induction bs arbitrary: s)
  case Nil
  then show ?case by simp
next
  case (Cons b bs)
  from Cons.prems have "m \<in> set (op_nodes (new_dag (pad_with_delays bs until u (pad1 b until u s))))"
    by (simp add: pad_with_delays_Cons del: pad_with_delays.simps(2))
  then have "m \<in> set (op_nodes (new_dag (pad1 b until u s))) \<or> length (heap (pad1 b until u s)) \<le> op m"
    by (rule Cons.IH)
  moreover obtain xs where "heap (pad1 b until u s) = heap s @ xs" using heap_pad1 by blast
  ultimately show ?case using op_nodes_pad1 [of m b until u s] by auto
qed

lemma regs_pad1 [simp]:
  "qregs (new_dag (pad1 b until u s)) = qregs (new_dag s)"
  "cregs (new_dag (pad1 b until u s)) = cregs (new_dag s)"
  by (simp_all add: pad1_def apply_operation_back_def)

lemma regs_pad_with_delays [simp]:
  "qregs (new_dag (pad_with_delays bs until u s)) = qregs (new_dag s)"
  "cregs (new_dag (pad_with_delays bs until u s)) = cregs (new_dag s)"
  by (induction bs arbitrary: s) (simp_all add: pad_with_delays_Cons del: pad_with_delays.simps(2))

lemma node_eta: "\<lparr>op = op n, qargs = qargs n, cargs = cargs n, condition = condition n\<rparr> = n"
  by simp

text \<open>What one round of the loop does, in closed form.\<close>

lemma heap_padded: "\<exists>xs. heap (padded u n s) = heap s @ xs"
  using heap_pad_with_delays [of "node_bits n" _ u "s\<lparr>bit_time_available := fold touch (node_bits n) (bit_time_available s)\<rparr>"]
  by (simp add: padded_def)

lemma schedule_node_Inr:
  assumes run: "schedule_node durations u n s = Inr s'" and ref: "op n < length (heap s)"
  shows "node_bits n \<noteq> [] \<and> (\<exists>d. durations (heap s ! op n) (qargs n) u = Some d \<and> s' = placed u n d s)"
proof -
  define start where "start = Max (avail (bit_time_available s) ` set (node_bits n))"
  define s1 where "s1 = padded u n s"
  define s2 where "s2 = s1\<lparr>new_dag := apply_operation_back (new_dag s1) (op n) (qargs n) (cargs n) (condition n),
                 start_times := start_times s1 @ [start]\<rparr>"
  from run have ne: "node_bits n \<noteq> []"
    and mx: "py_max (map (avail (bit_time_available s)) (node_bits n)) = Inr start"
    by (auto simp: schedule_node_def start_def py_max_Inr split: sum.splits)
  obtain xs where "heap s1 = heap s @ xs" unfolding s1_def using heap_padded by blast
  with ref have at: "heap s2 ! op n = heap s ! op n" by (simp add: nth_append s2_def)
  have unfold: "schedule_node durations u n s =
      (case durations (heap s2 ! op n) (qargs n) u of
         None \<Rightarrow> Inl DurationLookupError
       | Some d \<Rightarrow> Inr (s2\<lparr>heap := list_update (heap s2) (op n)
                ((heap s2 ! op n)\<lparr>op_duration := Some d, op_unit := u\<rparr>),
              bit_time_available :=
                fold (\<lambda>b. AList.update b (start + d)) (node_bits n) (bit_time_available s2)\<rparr>))"
    unfolding schedule_node_def Let_def s2_def s1_def padded_def start_def [symmetric] mx
    by (simp only: sum.case)
  from run obtain d where d2: "durations (heap s2 ! op n) (qargs n) u = Some d"
    and s2': "s' = s2\<lparr>heap := list_update (heap s2) (op n)
                ((heap s2 ! op n)\<lparr>op_duration := Some d, op_unit := u\<rparr>),
              bit_time_available :=
                fold (\<lambda>b. AList.update b (start + d)) (node_bits n) (bit_time_available s2)\<rparr>"
    unfolding unfold by (cases "durations (heap s2 ! op n) (qargs n) u") simp_all
  have "durations (heap s ! op n) (qargs n) u = Some d" using d2 at by simp
  moreover have "s' = placed u n d s"
    unfolding s2' at by (simp add: placed_def Let_def s2_def s1_def start_def)
  ultimately show ?thesis using ne by blast
qed

lemma keys_touch [simp]: "fst ` set (touch b tt) = insert b (fst ` set tt)"
proof (cases "map_of tt b")
  case None
  then show ?thesis by (simp add: touch_def)
next
  case (Some t)
  then have "(b, t) \<in> set tt" by (rule map_of_SomeD)
  then have "b \<in> fst ` set tt" by force
  with Some show ?thesis by (auto simp: touch_def)
qed

lemma keys_fold_touch [simp]: "fst ` set (fold touch bs tt) = set bs \<union> fst ` set tt"
  by (induction bs arbitrary: tt) auto

lemma keys_pad1 [simp]:
  "fst ` set (bit_time_available (pad1 b until u s)) = insert b (fst ` set (bit_time_available s))"
  by (simp add: pad1_def)

lemma keys_pad_with_delays [simp]:
  "fst ` set (bit_time_available (pad_with_delays bs until u s)) = set bs \<union> fst ` set (bit_time_available s)"
  by (induction bs arbitrary: s) (auto simp add: pad_with_delays_Cons simp del: pad_with_delays.simps(2))

lemma keys_fold_update [simp]:
  "fst ` set (fold (\<lambda>b. AList.update b v) bs tt) = set bs \<union> fst ` set tt"
  by (induction bs arbitrary: tt) (auto simp: dom_update)

lemma placed_step:
  fixes u :: "string option" and d :: int and n :: node and s :: sched
  assumes cons: "consistent s"
    and dist: "distinct (node_bits n)"
    and ref: "op n < length (heap s)"
    and fresh: "\<forall>m\<in>set (op_nodes (new_dag s)). op m \<noteq> op n"
  defines "tt \<equiv> bit_time_available s"
  defines "start \<equiv> Max (avail tt ` set (node_bits n))"
  defines "s' \<equiv> placed u n d s"
  shows "consistent s'"
    and "last (start_times s') = start"
    and "lane s' b = lane s b @
         (if b \<in> set (node_bits n) then
            (if avail tt b < start then [(avail tt b, [b], new_Delay (start - avail tt b) u)] else [])
            @ [(start, node_bits n, (heap s ! op n)\<lparr>op_duration := Some d, op_unit := u\<rparr>)]
          else [])"
    and "avail (bit_time_available s') b = (if b \<in> set (node_bits n) then start + d else avail tt b)"
    and "fst ` set (bit_time_available s') = set (node_bits n) \<union> fst ` set tt"
    and "\<forall>m\<in>set (op_nodes (new_dag s')). m \<in> set (op_nodes (new_dag s)) \<or> m = n \<or> length (heap s) \<le> op m"
    and "length (heap s) \<le> length (heap s')"
proof -
  let ?s0 = "s\<lparr>bit_time_available := fold touch (node_bits n) (bit_time_available s)\<rparr>"
  let ?s1 = "padded u n s"
  let ?new = "(heap s ! op n)\<lparr>op_duration := Some d, op_unit := u\<rparr>"
  have s1: "?s1 = pad_with_delays (node_bits n) start u ?s0"
    by (simp add: padded_def start_def tt_def)
  obtain xs where heap1: "heap ?s1 = heap s @ xs" using heap_padded by blast
  have c0: "consistent ?s0" using cons by (simp add: consistent_def)
  have c1: "consistent ?s1" unfolding s1 using c0 by (rule consistent_pad_with_delays)
  have lane0: "lane ?s0 b = lane s b" for b by (simp add: lane_def)
  have lane1: "lane ?s1 b = lane s b @
      (if b \<in> set (node_bits n) \<and> avail tt b < start
       then [(avail tt b, [b], new_Delay (start - avail tt b) u)] else [])" for b
    unfolding s1 using lane_pad_with_delays [OF c0 dist, of start u b] by (simp add: lane0 tt_def)
  have len1: "length (op_nodes (new_dag ?s1)) = length (start_times ?s1)"
    using c1 by (simp add: consistent_def)
  have origin: "m \<in> set (op_nodes (new_dag s)) \<or> length (heap s) \<le> op m"
    if "m \<in> set (op_nodes (new_dag ?s1))" for m
    using op_nodes_pad_with_delays [of m "node_bits n" start u ?s0] that by (simp add: s1)
  have heap': "heap s' = list_update (heap ?s1) (op n) ?new"
    by (simp add: s'_def placed_def Let_def)
  have same: "\<forall>m\<in>set (op_nodes (new_dag ?s1)). heap s' ! op m = heap ?s1 ! op m"
  proof
    fix m assume "m \<in> set (op_nodes (new_dag ?s1))"
    with origin fresh ref have "op n \<noteq> op m" by fastforce
    then show "heap s' ! op m = heap ?s1 ! op m"
      unfolding heap' by (rule nth_list_update_neq)
  qed
  have new: "heap s' ! op n = ?new"
    using ref heap1 by (simp add: heap')
  have nodes': "op_nodes (new_dag s') = op_nodes (new_dag ?s1) @ [n]"
    by (simp add: s'_def placed_def Let_def apply_operation_back_def)
  have starts': "start_times s' = start_times ?s1 @ [start]"
    by (simp add: s'_def placed_def Let_def start_def tt_def)
  show "consistent s'"
    using c1 ref heap1 by (auto simp: consistent_def nodes' starts' heap')
  show "last (start_times s') = start" by (simp add: starts')
  show "lane s' b = lane s b @
         (if b \<in> set (node_bits n) then
            (if avail tt b < start then [(avail tt b, [b], new_Delay (start - avail tt b) u)] else [])
            @ [(start, node_bits n, ?new)]
          else [])"
  proof -
    have "lane s' b = lane_view (heap s') (op_nodes (new_dag ?s1)) (start_times ?s1) b
        @ lane_view (heap s') [n] [start] b"
      unfolding lane_def nodes' starts' by (rule lane_view_append [OF len1])
    also have "lane_view (heap s') (op_nodes (new_dag ?s1)) (start_times ?s1) b = lane ?s1 b"
      unfolding lane_def by (rule lane_view_cong_heap [OF same])
    also have "lane_view (heap s') [n] [start] b
        = (if b \<in> set (node_bits n) then [(start, node_bits n, ?new)] else [])"
      by (simp add: lane_view_single new)
    finally show ?thesis by (simp add: lane1)
  qed
  show "avail (bit_time_available s') b = (if b \<in> set (node_bits n) then start + d else avail tt b)"
    by (simp add: s'_def placed_def Let_def avail_fold_update tt_def start_def s1 [unfolded start_def tt_def])
  show "fst ` set (bit_time_available s') = set (node_bits n) \<union> fst ` set tt"
    by (auto simp add: s'_def placed_def Let_def tt_def s1 [unfolded start_def tt_def])
  show "\<forall>m\<in>set (op_nodes (new_dag s')). m \<in> set (op_nodes (new_dag s)) \<or> m = n \<or> length (heap s) \<le> op m"
    using origin by (auto simp: nodes')
  show "length (heap s) \<le> length (heap s')"
    using heap1 by (simp add: heap')
qed

lemma lane_end_append:
  "lane_end t (xs @ ys) = (case lane_end t xs of None \<Rightarrow> None | Some e \<Rightarrow> lane_end e ys)"
  by (induction xs arbitrary: t) (auto split: option.splits if_splits)

lemma Max_avail_ge:
  "b \<in> set bs \<Longrightarrow> avail tt b \<le> Max (avail tt ` set bs)"
  by simp

lemma Max_avail_nonneg:
  assumes "bs \<noteq> []" and "\<forall>b. 0 \<le> avail tt b"
  shows "0 \<le> Max (avail tt ` set bs)"
proof -
  from assms(1) obtain b where "b \<in> set bs" by (cases bs) auto
  then have "avail tt b \<le> Max (avail tt ` set bs)" by (rule Max_avail_ge)
  with assms(2) [rule_format, of b] show ?thesis by linarith
qed

lemma inv_step:
  assumes sched_inv: "sched_inv L (n # ns) s"
    and dist_op: "distinct (map op (n # ns))"
    and dist: "distinct (node_bits n)"
    and sub: "set (node_bits n) \<subseteq> L"
    and ne: "node_bits n \<noteq> []"
    and d: "0 \<le> d"
  shows "sched_inv L ns (placed u n d s)"
proof -
  let ?tt = "bit_time_available s"
  let ?start = "Max (avail ?tt ` set (node_bits n))"
  let ?s' = "placed u n d s"
  from sched_inv have cons: "consistent s"
    and fresh_all: "\<forall>m\<in>set (op_nodes (new_dag s)). op m \<notin> op ` set (n # ns)"
    and refs: "\<forall>k\<in>set (n # ns). op k < length (heap s)"
    and ends: "\<And>b. lane_end 0 (lane s b) = Some (avail ?tt b)"
    and pos: "\<forall>b. 0 \<le> avail ?tt b"
    and keys: "\<forall>b\<in>fst ` set ?tt. lane s b \<noteq> []"
    and inL: "\<And>b. lane s b \<noteq> [] \<Longrightarrow> b \<in> L"
    by (auto simp: sched_inv_def)
  from refs have ref: "op n < length (heap s)" by simp
  from fresh_all have fresh: "\<forall>m\<in>set (op_nodes (new_dag s)). op m \<noteq> op n" by auto
  note step = placed_step [OF cons dist ref fresh, of u d]
  have lane': "lane ?s' b = lane s b @
         (if b \<in> set (node_bits n) then
            (if avail ?tt b < ?start then [(avail ?tt b, [b], new_Delay (?start - avail ?tt b) u)] else [])
            @ [(?start, node_bits n, (heap s ! op n)\<lparr>op_duration := Some d, op_unit := u\<rparr>)]
          else [])" for b
    by (rule step(3))
  have avail': "avail (bit_time_available ?s') b =
      (if b \<in> set (node_bits n) then ?start + d else avail ?tt b)" for b
    by (rule step(4))
  have start_pos: "0 \<le> ?start" using ne pos by (rule Max_avail_nonneg)
  have "consistent ?s'" by (rule step(1))
  moreover have "\<forall>m\<in>set (op_nodes (new_dag ?s')). op m \<notin> op ` set ns"
  proof
    fix m assume "m \<in> set (op_nodes (new_dag ?s'))"
    with step(6) have "m \<in> set (op_nodes (new_dag s)) \<or> m = n \<or> length (heap s) \<le> op m" by blast
    then show "op m \<notin> op ` set ns"
    proof (elim disjE)
      assume "m \<in> set (op_nodes (new_dag s))"
      with fresh_all show ?thesis by auto
    next
      assume "m = n"
      with dist_op show ?thesis by auto
    next
      assume "length (heap s) \<le> op m"
      with refs show ?thesis by fastforce
    qed
  qed
  moreover have "\<forall>k\<in>set ns. op k < length (heap ?s')"
    using refs step(7) by fastforce
  moreover have "lane_end 0 (lane ?s' b) = Some (avail (bit_time_available ?s') b)" for b
  proof (cases "b \<in> set (node_bits n)")
    case True
    then have "avail ?tt b \<le> ?start" by (rule Max_avail_ge)
    then have "avail ?tt b < ?start \<or> avail ?tt b = ?start" by linarith
    with True d show ?thesis
      by (auto simp add: lane' avail' lane_end_append ends new_Delay_def)
  next
    case False
    then show ?thesis by (simp add: lane' avail' ends)
  qed
  moreover have "\<forall>b. 0 \<le> avail (bit_time_available ?s') b"
    using pos start_pos d by (simp add: avail')
  moreover have "\<forall>b\<in>fst ` set (bit_time_available ?s'). lane ?s' b \<noteq> []"
    unfolding step(5) using keys by (auto simp: lane')
  moreover have "\<forall>b. lane ?s' b \<noteq> [] \<longrightarrow> b \<in> L"
    using inL sub by (auto simp: lane' split: if_splits)
  ultimately show ?thesis unfolding sched_inv_def by blast
qed

lemma inv_schedule_nodes:
  assumes "sched_inv L (ns1 @ ns2) s"
    and "distinct (map op (ns1 @ ns2))"
    and "\<forall>n\<in>set ns1. distinct (node_bits n) \<and> set (node_bits n) \<subseteq> L"
    and "nonneg_durations durations"
    and "schedule_nodes durations u ns1 s = Inr s'"
  shows "sched_inv L ns2 s'"
  using assms
proof (induction ns1 arbitrary: s)
  case Nil
  then show ?case by simp
next
  case (Cons n ns1)
  from Cons.prems(5) obtain s1 where s1: "schedule_node durations u n s = Inr s1"
    and rest: "schedule_nodes durations u ns1 s1 = Inr s'"
    by (auto split: sum.splits)
  from Cons.prems(1) have ref: "op n < length (heap s)" by (simp add: sched_inv_def)
  from schedule_node_Inr [OF s1 ref] obtain d where ne: "node_bits n \<noteq> []"
    and d: "durations (heap s ! op n) (qargs n) u = Some d" and s1': "s1 = placed u n d s"
    by blast
  from d Cons.prems(4) have dpos: "0 \<le> d" by (auto simp: nonneg_durations_def)
  have "sched_inv L (ns1 @ ns2) s1"
    unfolding s1' using Cons.prems(1,2,3) ne dpos by (intro inv_step) simp_all
  moreover from Cons.prems(2) have "distinct (map op (ns1 @ ns2))" by simp
  moreover from Cons.prems(3) have "\<forall>n\<in>set ns1. distinct (node_bits n) \<and> set (node_bits n) \<subseteq> L" by simp
  ultimately show ?case using Cons.prems(4) rest by (rule Cons.IH)
qed

lemma fold_add_qreg: "fold (\<lambda>qreg d. add_qreg d qreg) rs d = d\<lparr>qregs := qregs d @ rs\<rparr>"
  by (induction rs arbitrary: d) (simp_all add: add_qreg_def)

lemma fold_add_creg: "fold (\<lambda>creg d. add_creg d creg) rs d = d\<lparr>cregs := cregs d @ rs\<rparr>"
  by (induction rs arbitrary: d) (simp_all add: add_creg_def)

lemma initial_sched_eq:
  "initial_sched h dag =
     \<lparr>heap = h,
      new_dag = \<lparr>name = None, qregs = qregs dag, cregs = cregs dag, op_nodes = [],
                 duration = None, unit = None\<rparr>,
      bit_time_available = [], start_times = []\<rparr>"
  by (simp add: initial_sched_def fold_add_qreg fold_add_creg DAGCircuit_def)

lemma lane_initial [simp]: "lane (initial_sched h dag) b = []"
  by (simp add: initial_sched_eq lane_def lane_view_def)

lemma avail_Nil [simp]: "avail [] b = 0"
  by (simp add: avail_def)

lemma inv_initial:
  assumes "\<forall>n\<in>set ns. op n < length h"
  shows "sched_inv L ns (initial_sched h dag)"
  using assms by (simp add: sched_inv_def consistent_def) (simp add: initial_sched_eq)

lemma qubit_register:
  "Qubit r i \<in> set (concat (map (\<lambda>(r, n). map (Qubit r) [0..<n]) rs)) \<Longrightarrow> r \<in> fst ` set rs"
  by (induction rs) auto

lemma clbit_register:
  "Clbit r i \<in> set (concat (map (\<lambda>(r, n). map (Clbit r) [0..<n]) rs)) \<Longrightarrow> r \<in> fst ` set rs"
  by (induction rs) auto

lemma distinct_qubit_list:
  "distinct (map fst rs) \<Longrightarrow> distinct (concat (map (\<lambda>(r, n). map (Qubit r) [0..<n]) rs))"
proof (induction rs)
  case Nil
  then show ?case by simp
next
  case (Cons x rs)
  obtain r n where x: "x = (r, n)" by (cases x)
  from Cons.prems have r: "r \<notin> fst ` set rs" and d: "distinct (map fst rs)" by (simp_all add: x)
  have "distinct (map (Qubit r) [0..<n])" by (simp add: distinct_map inj_on_def)
  moreover have "distinct (concat (map (\<lambda>(r, n). map (Qubit r) [0..<n]) rs))"
    using d by (rule Cons.IH)
  moreover have "set (map (Qubit r) [0..<n]) \<inter> set (concat (map (\<lambda>(r, n). map (Qubit r) [0..<n]) rs)) = {}"
  proof -
    have "b \<notin> set (concat (map (\<lambda>(r, n). map (Qubit r) [0..<n]) rs))" if "b \<in> set (map (Qubit r) [0..<n])" for b
    proof -
      from that obtain i where "b = Qubit r i" by auto
      with r qubit_register [of r i rs] show ?thesis by blast
    qed
    then show ?thesis by blast
  qed
  ultimately show ?case by (simp add: x)
qed

lemma distinct_clbit_list:
  "distinct (map fst rs) \<Longrightarrow> distinct (concat (map (\<lambda>(r, n). map (Clbit r) [0..<n]) rs))"
proof (induction rs)
  case Nil
  then show ?case by simp
next
  case (Cons x rs)
  obtain r n where x: "x = (r, n)" by (cases x)
  from Cons.prems have r: "r \<notin> fst ` set rs" and d: "distinct (map fst rs)" by (simp_all add: x)
  have "distinct (map (Clbit r) [0..<n])" by (simp add: distinct_map inj_on_def)
  moreover have "distinct (concat (map (\<lambda>(r, n). map (Clbit r) [0..<n]) rs))"
    using d by (rule Cons.IH)
  moreover have "set (map (Clbit r) [0..<n]) \<inter> set (concat (map (\<lambda>(r, n). map (Clbit r) [0..<n]) rs)) = {}"
  proof -
    have "b \<notin> set (concat (map (\<lambda>(r, n). map (Clbit r) [0..<n]) rs))" if "b \<in> set (map (Clbit r) [0..<n])" for b
    proof -
      from that obtain i where "b = Clbit r i" by auto
      with r clbit_register [of r i rs] show ?thesis by blast
    qed
    then show ?thesis by blast
  qed
  ultimately show ?case by (simp add: x)
qed

lemma is_Clbit_clbits: "b \<in> set (clbits d) \<Longrightarrow> is_Clbit b"
  by (auto simp: clbits_def)

lemma distinct_lanes:
  assumes "distinct (map fst (qregs d))" and "distinct (map fst (cregs d))"
  shows "distinct (qubits d @ clbits d)"
proof -
  have "\<not> (is_Qubit b \<and> is_Clbit b)" for b by (cases b) simp_all
  then have "set (qubits d) \<inter> set (clbits d) = {}"
    using is_Qubit_qubits [of _ d] is_Clbit_clbits [of _ d] by blast
  with assms show ?thesis
    by (simp add: qubits_def clbits_def distinct_qubit_list distinct_clbit_list)
qed

lemma lane_new_dag_meta [simp]:
  "lane (s\<lparr>new_dag := (new_dag s)\<lparr>name := x, duration := y, unit := z\<rparr>\<rparr>) b = lane s b"
  by (simp add: lane_def)

lemma lanes_pad_with_delays [simp]:
  "qubits (new_dag (pad_with_delays bs until u s)) = qubits (new_dag s)"
  "clbits (new_dag (pad_with_delays bs until u s)) = clbits (new_dag s)"
  by (simp_all add: qubits_def clbits_def)

text \<open>What the end of \<open>run\<close> does, in closed form.\<close>

lemma finish_Inr:
  assumes fin: "finish dag u s = Inr sf"
  defines "tt \<equiv> bit_time_available s"
  defines "cd \<equiv> Max (avail tt ` fst ` set tt)"
  shows "tt \<noteq> []"
    and "sf = (pad_with_delays (qubits (new_dag s) @ clbits (new_dag s)) cd u s)
            \<lparr>new_dag := (new_dag (pad_with_delays (qubits (new_dag s) @ clbits (new_dag s)) cd u s))
               \<lparr>name := name dag, duration := Some cd, unit := u\<rparr>\<rparr>"
proof -
  from fin have ne: "map (avail tt) (map fst tt) \<noteq> []"
    and mx: "py_max (map (avail tt) (map fst tt)) = Inr cd"
    by (auto simp: finish_def tt_def cd_def py_max_Inr image_image split: sum.splits)
  from ne show "tt \<noteq> []" by simp
  from fin show "sf = (pad_with_delays (qubits (new_dag s) @ clbits (new_dag s)) cd u s)
            \<lparr>new_dag := (new_dag (pad_with_delays (qubits (new_dag s) @ clbits (new_dag s)) cd u s))
               \<lparr>name := name dag, duration := Some cd, unit := u\<rparr>\<rparr>"
    unfolding finish_def Let_def tt_def [symmetric] mx
    by (simp add: pad_with_delays_append)
qed

lemma lane_end_hd:
  "lane_end t es = Some e \<Longrightarrow> es \<noteq> [] \<Longrightarrow> entry_start (hd es) = t"
  by (cases es) (auto simp: entry_start_def split: option.splits if_splits)

lemma lane_end_durations:
  "lane_end t es = Some e \<Longrightarrow> x \<in> set es \<Longrightarrow>
   op_duration (entry_op x) \<noteq> None \<and> 0 \<le> entry_duration x"
  by (induction t es rule: lane_end.induct)
    (auto simp: entry_op_def entry_duration_def split: option.splits if_splits)

lemma lane_end_next:
  "lane_end t es = Some e \<Longrightarrow> Suc i < length es \<Longrightarrow>
   entry_start (es ! Suc i) = entry_start (es ! i) + entry_duration (es ! i)"
proof (induction t es arbitrary: i rule: lane_end.induct)
  case (1 t)
  then show ?case by simp
next
  case (2 t st bs x es)
  from "2.prems"(1) obtain d where d: "op_duration x = Some d" and st: "st = t"
    and rest: "lane_end (st + d) es = Some e"
    by (auto split: option.splits if_splits)
  show ?case
  proof (cases i)
    case 0
    with "2.prems"(2) have "es \<noteq> []" by auto
    with rest have "entry_start (hd es) = st + d" by (rule lane_end_hd)
    with 0 \<open>es \<noteq> []\<close> d show ?thesis
      by (simp add: hd_conv_nth entry_start_def entry_duration_def entry_op_def)
  next
    case (Suc j)
    with "2.prems"(2) have "Suc j < length es" by simp
    with "2.IH" [OF d _ rest] st "2.prems"(1) d have
      "entry_start (es ! Suc j) = entry_start (es ! j) + entry_duration (es ! j)"
      by (auto split: if_splits)
    with Suc show ?thesis by simp
  qed
qed

lemma lane_end_last:
  "lane_end t es = Some e \<Longrightarrow> es \<noteq> [] \<Longrightarrow> last_end es = e"
proof (induction t es rule: lane_end.induct)
  case (1 t)
  then show ?case by simp
next
  case (2 t st bs x es)
  from "2.prems"(1) obtain d where d: "op_duration x = Some d" and st: "st = t" and pos: "0 \<le> d"
    and rest: "lane_end (st + d) es = Some e"
    by (auto split: option.splits if_splits)
  show ?case
  proof (cases "es = []")
    case True
    with rest d show ?thesis
      by (simp add: last_end_def entry_start_def entry_duration_def entry_op_def)
  next
    case False
    with "2.IH" [OF d _ rest] st pos have "last_end es = e" by simp
    with False show ?thesis by (simp add: last_end_def)
  qed
qed

lemma lane_end_Nil: "lane_end t [] = Some e \<Longrightarrow> e = t"
  by simp

lemma schedule_node_regs:
  assumes "schedule_node durations u n s = Inr s'"
  shows "qregs (new_dag s') = qregs (new_dag s) \<and> cregs (new_dag s') = cregs (new_dag s)"
  using assms
  by (auto simp: schedule_node_def Let_def apply_operation_back_def split: sum.splits option.splits)

lemma schedule_nodes_regs:
  "schedule_nodes durations u ns s = Inr s' \<Longrightarrow>
   qregs (new_dag s') = qregs (new_dag s) \<and> cregs (new_dag s') = cregs (new_dag s)"
proof (induction ns arbitrary: s)
  case Nil
  then show ?case by simp
next
  case (Cons n ns)
  then obtain s1 where s1: "schedule_node durations u n s = Inr s1"
    and rest: "schedule_nodes durations u ns s1 = Inr s'"
    by (auto split: sum.splits)
  from schedule_node_regs [OF s1] Cons.IH [OF rest] show ?case by simp
qed

lemma run_Inr:
  assumes "ASAPSchedule_run durations ps h dag tu = Inr sf"
  shows "length (qregs dag) = 1 \<and> map_of (qregs dag) ''q'' \<noteq> None \<and>
     (\<exists>s. schedule_nodes durations (resolve_time_unit tu ps) (op_nodes dag) (initial_sched h dag) = Inr s \<and>
          finish dag (resolve_time_unit tu ps) s = Inr sf)"
  using assms
  by (auto simp: ASAPSchedule_run_def Let_def split: if_splits sum.splits)

text \<open>The state when \<open>run\<close> returns, from the state \<open>s\<close> in which the loop over the nodes ends.\<close>

lemma finish_lanes:
  assumes sched_inv: "sched_inv (set (qubits (new_dag s) @ clbits (new_dag s))) [] s"
    and dist: "distinct (qubits (new_dag s) @ clbits (new_dag s))"
    and fin: "finish dag u s = Inr sf"
  defines "cd \<equiv> Max (avail (bit_time_available s) ` fst ` set (bit_time_available s))"
  shows "duration (new_dag sf) = Some cd"
    and "qubits (new_dag sf) @ clbits (new_dag sf) = qubits (new_dag s) @ clbits (new_dag s)"
    and "b \<in> set (qubits (new_dag s) @ clbits (new_dag s)) \<Longrightarrow> lane_end 0 (lane sf b) = Some cd"
    and "b \<notin> set (qubits (new_dag s) @ clbits (new_dag s)) \<Longrightarrow> lane sf b = []"
    and "\<exists>c\<in>set (qubits (new_dag s) @ clbits (new_dag s)). lane sf c \<noteq> []"
proof -
  let ?tt = "bit_time_available s"
  let ?L = "qubits (new_dag s) @ clbits (new_dag s)"
  let ?p = "pad_with_delays ?L cd u s"
  from sched_inv have cons: "consistent s"
    and ends: "\<And>b. lane_end 0 (lane s b) = Some (avail ?tt b)"
    and pos: "\<And>b. 0 \<le> avail ?tt b"
    and keys: "\<And>b. b \<in> fst ` set ?tt \<Longrightarrow> lane s b \<noteq> []"
    and inL: "\<And>b. lane s b \<noteq> [] \<Longrightarrow> b \<in> set ?L"
    by (auto simp: sched_inv_def)
  note f = finish_Inr [OF fin]
  have sf: "sf = ?p\<lparr>new_dag := (new_dag ?p)\<lparr>name := name dag, duration := Some cd, unit := u\<rparr>\<rparr>"
    using f(2) by (simp add: cd_def)
  have lane_sf: "lane sf b = lane s b @
      (if b \<in> set ?L \<and> avail ?tt b < cd
       then [(avail ?tt b, [b], new_Delay (cd - avail ?tt b) u)] else [])" for b
    by (subst sf) (simp add: lane_pad_with_delays [OF cons dist])
  from f(1) obtain k where k: "k \<in> fst ` set ?tt" by (cases ?tt) auto
  have fin_keys: "finite (avail ?tt ` fst ` set ?tt)" by simp
  have le: "avail ?tt b \<le> cd" if "b \<in> fst ` set ?tt" for b
    unfolding cd_def using that by (intro Max_ge) auto
  have "avail ?tt k \<le> cd" using k by (rule le)
  with pos [of k] have cd_pos: "0 \<le> cd" by linarith
  have unkeyed: "avail ?tt b = 0" if "b \<notin> fst ` set ?tt" for b
    using that by (simp add: avail_def map_of_eq_None_iff [THEN iffD2])
  show "duration (new_dag sf) = Some cd" by (subst sf) simp
  show "qubits (new_dag sf) @ clbits (new_dag sf) = ?L"
    unfolding sf by (simp add: qubits_def clbits_def)
  show "lane_end 0 (lane sf b) = Some cd" if b: "b \<in> set ?L"
  proof (cases "avail ?tt b < cd")
    case True
    with b show ?thesis
      by (simp add: lane_sf lane_end_append ends new_Delay_def)
  next
    case False
    have "avail ?tt b \<le> cd"
    proof (cases "b \<in> fst ` set ?tt")
      case True
      then show ?thesis by (rule le)
    next
      case False
      with unkeyed cd_pos show ?thesis by simp
    qed
    with False have "avail ?tt b = cd" by linarith
    with False show ?thesis by (simp add: lane_sf ends)
  qed
  show "lane sf b = []" if "b \<notin> set ?L"
    using that inL [of b] by (auto simp: lane_sf)
  from keys [OF k] have "lane sf k \<noteq> []" by (simp add: lane_sf)
  moreover from keys [OF k] have "k \<in> set ?L" by (rule inL)
  ultimately show "\<exists>c\<in>set ?L. lane sf c \<noteq> []" by blast
qed

lemma schedule_nodes_append:
  "schedule_nodes durations u (ns1 @ ns2) s =
     (case schedule_nodes durations u ns1 s of
        Inl e \<Rightarrow> Inl e
      | Inr s1 \<Rightarrow> schedule_nodes durations u ns2 s1)"
  by (induction ns1 arbitrary: s) (auto split: sum.splits)

lemma loop_inv:
  assumes wf: "wf_input h dag" and nn: "nonneg_durations durations"
    and split: "op_nodes dag = pre @ post"
    and loop: "schedule_nodes durations u pre (initial_sched h dag) = Inr s"
  shows "sched_inv (set (qubits dag @ clbits dag)) post s"
    and "qregs (new_dag s) = qregs dag" and "cregs (new_dag s) = cregs dag"
proof -
  from wf have refs: "\<forall>n\<in>set (pre @ post). op n < length h"
    and dist: "distinct (map op (pre @ post))"
    and bits: "\<forall>n\<in>set pre. distinct (node_bits n) \<and> set (node_bits n) \<subseteq> set (qubits dag @ clbits dag)"
    by (auto simp: wf_input_def split)
  from refs have "sched_inv (set (qubits dag @ clbits dag)) (pre @ post) (initial_sched h dag)"
    by (rule inv_initial)
  then show "sched_inv (set (qubits dag @ clbits dag)) post s"
    using dist bits nn loop by (rule inv_schedule_nodes)
  from schedule_nodes_regs [OF loop]
  show "qregs (new_dag s) = qregs dag" and "cregs (new_dag s) = cregs dag"
    by (simp_all add: initial_sched_eq)
qed

lemma run_lanes:
  assumes run: "ASAPSchedule_run durations ps h dag tu = Inr sf"
    and wf: "wf_input h dag" and nn: "nonneg_durations durations"
  shows "\<exists>s cd. schedule_nodes durations (resolve_time_unit tu ps) (op_nodes dag) (initial_sched h dag) = Inr s \<and>
      cd = Max (avail (bit_time_available s) ` fst ` set (bit_time_available s)) \<and>
      duration (new_dag sf) = Some cd \<and>
      qubits (new_dag sf) @ clbits (new_dag sf) = qubits dag @ clbits dag \<and>
      (\<forall>b\<in>set (qubits dag @ clbits dag). lane_end 0 (lane sf b) = Some cd) \<and>
      (\<forall>b. b \<notin> set (qubits dag @ clbits dag) \<longrightarrow> lane sf b = []) \<and>
      (\<exists>c\<in>set (qubits dag @ clbits dag). lane sf c \<noteq> [])"
proof -
  let ?u = "resolve_time_unit tu ps"
  from run_Inr [OF run] obtain s where q: "length (qregs dag) = 1"
    and loop: "schedule_nodes durations ?u (op_nodes dag) (initial_sched h dag) = Inr s"
    and fin: "finish dag ?u s = Inr sf"
    by blast
  have split: "op_nodes dag = op_nodes dag @ []" by simp
  note l = loop_inv [OF wf nn split loop]
  have lanes: "qubits (new_dag s) @ clbits (new_dag s) = qubits dag @ clbits dag"
    by (simp add: qubits_def clbits_def l(2,3))
  from q have "distinct (map fst (qregs dag))" by (cases "qregs dag") simp_all
  moreover from wf have "distinct (map fst (cregs dag))" by (simp add: wf_input_def)
  ultimately have "distinct (qubits dag @ clbits dag)" by (rule distinct_lanes)
  then have dist: "distinct (qubits (new_dag s) @ clbits (new_dag s))" by (simp only: lanes)
  from l(1) have sched_inv: "sched_inv (set (qubits (new_dag s) @ clbits (new_dag s))) [] s" by (simp only: lanes)
  note f = finish_lanes [OF sched_inv dist fin]
  show ?thesis
    using loop f(1) f(2) f(3) f(4) f(5) unfolding lanes by blast
qed

text \<open>
  Claim C3, as the code has it. Let \<open>run\<close> return on a well-formed graph, so that every
  node has an operation object of its own, whose nodes carry no condition, with integer
  durations that are not negative. Then on every lane \<open>b\<close> of the state returned the first
  operation starts at 0, every further operation starts where the one before it started
  plus the duration of that one, and every duration is set and not negative.
\<close>

theorem C3_lanes_contiguous:
  assumes "ASAPSchedule_run durations ps h dag tu = Inr s"
    and "wf_input h dag" and "nonneg_durations durations" and "unconditioned dag"
  shows "(lane s b \<noteq> [] \<longrightarrow> entry_start (hd (lane s b)) = 0) \<and>
     (\<forall>i. Suc i < length (lane s b) \<longrightarrow>
        entry_start (lane s b ! Suc i) = entry_start (lane s b ! i) + entry_duration (lane s b ! i)) \<and>
     (\<forall>e\<in>set (lane s b). op_duration (entry_op e) \<noteq> None \<and> 0 \<le> entry_duration e)"
proof -
  from run_lanes [OF assms(1,2,3)] obtain cd where
    inside: "\<forall>b\<in>set (qubits dag @ clbits dag). lane_end 0 (lane s b) = Some cd"
    and outside: "\<forall>b. b \<notin> set (qubits dag @ clbits dag) \<longrightarrow> lane s b = []"
    by blast
  show ?thesis
  proof (cases "b \<in> set (qubits dag @ clbits dag)")
    case True
    with inside have e: "lane_end 0 (lane s b) = Some cd" by blast
    show ?thesis
      using lane_end_hd [OF e] lane_end_next [OF e] lane_end_durations [OF e] by blast
  next
    case False
    with outside have "lane s b = []" by blast
    then show ?thesis by simp
  qed
qed

text \<open>
  Claim C2, as the code has it. Let \<open>run\<close> return the state \<open>s\<close> on a well-formed graph,
  so that every node has an operation object of its own, whose nodes carry no condition,
  with integer durations that are not negative. Then the duration of
  the graph is some \<open>cd\<close>; on every lane of the graph that holds operations the last one
  ends at \<open>cd\<close>, and a lane without operations exists only if \<open>cd = 0\<close>; so \<open>cd\<close> is the
  maximum over the lanes of the end of the last operation; and \<open>cd\<close> is the maximum of the
  availabilities over the keys of the time table (the lanes touched) when the loop ends.
\<close>

theorem C2_total_duration_is_lane_end:
  assumes "ASAPSchedule_run durations ps h dag tu = Inr s"
    and "wf_input h dag" and "nonneg_durations durations" and "unconditioned dag"
  shows "\<exists>cd. duration (new_dag s) = Some cd \<and>
     (\<forall>b\<in>set (qubits (new_dag s) @ clbits (new_dag s)). lane s b \<noteq> [] \<longrightarrow> last_end (lane s b) = cd) \<and>
     (\<forall>b\<in>set (qubits (new_dag s) @ clbits (new_dag s)). lane s b = [] \<longrightarrow> cd = 0) \<and>
     cd = Max ((\<lambda>b. last_end (lane s b)) `
            {b \<in> set (qubits (new_dag s) @ clbits (new_dag s)). lane s b \<noteq> []}) \<and>
     (\<forall>s0. schedule_nodes durations (resolve_time_unit tu ps) (op_nodes dag) (initial_sched h dag) = Inr s0 \<longrightarrow>
        cd = Max (avail (bit_time_available s0) ` fst ` set (bit_time_available s0)))"
proof -
  let ?L = "qubits (new_dag s) @ clbits (new_dag s)"
  from run_lanes [OF assms(1,2,3)] obtain s0 cd where
    loop: "schedule_nodes durations (resolve_time_unit tu ps) (op_nodes dag) (initial_sched h dag) = Inr s0"
    and cd: "cd = Max (avail (bit_time_available s0) ` fst ` set (bit_time_available s0))"
    and dur: "duration (new_dag s) = Some cd"
    and lanes: "?L = qubits dag @ clbits dag"
    and inside: "\<forall>b\<in>set (qubits dag @ clbits dag). lane_end 0 (lane s b) = Some cd"
    and some: "\<exists>c\<in>set (qubits dag @ clbits dag). lane s c \<noteq> []"
    by blast
  have filled: "last_end (lane s b) = cd" if "b \<in> set ?L" and "lane s b \<noteq> []" for b
    using that inside lanes by (auto intro: lane_end_last)
  have empty: "cd = 0" if "b \<in> set ?L" and "lane s b = []" for b
  proof -
    from that(1) inside lanes have "lane_end 0 (lane s b) = Some cd" by simp
    with that(2) show ?thesis by simp
  qed
  have "(\<lambda>b. last_end (lane s b)) ` {b \<in> set ?L. lane s b \<noteq> []} = {cd}"
    using filled some lanes by auto
  then have "cd = Max ((\<lambda>b. last_end (lane s b)) ` {b \<in> set ?L. lane s b \<noteq> []})" by simp
  with dur filled empty loop cd show ?thesis by auto
qed

text \<open>
  Claim C1. Let the loop have processed the nodes \<open>pre\<close> of a well-formed graph and reached
  state \<open>s\<close>, and let the round for the next node \<open>n\<close> lead to \<open>s'\<close>. The time recorded for
  \<open>n\<close> is the maximum of the availabilities in \<open>s\<close> of the lanes of \<open>n\<close>. On every lane \<open>b\<close>
  of \<open>n\<close> the round appends, after what the lane held: one delay on \<open>b\<close> alone, from the
  availability of \<open>b\<close> and of duration start minus that availability, if the availability
  is below the start time, and no delay otherwise; and then the operation, at the start
  time, with the resolved duration and the unit. A lane that \<open>n\<close> does not touch gets
  nothing.
\<close>

theorem C1_start_time_and_padding:
  assumes "wf_input h dag" and "nonneg_durations durations"
    and "op_nodes dag = pre @ n # post"
    and "schedule_nodes durations u pre (initial_sched h dag) = Inr s"
    and "schedule_node durations u n s = Inr s'"
  shows "\<exists>d. durations (heap s ! op n) (qargs n) u = Some d \<and>
     (let tt = bit_time_available s; start = Max (avail tt ` set (node_bits n)) in
      last (start_times s') = start \<and>
      (\<forall>b. lane s' b = lane s b @
         (if b \<in> set (node_bits n) then
            (if avail tt b < start then [(avail tt b, [b], new_Delay (start - avail tt b) u)] else [])
            @ [(start, node_bits n, (heap s ! op n)\<lparr>op_duration := Some d, op_unit := u\<rparr>)]
          else [])))"
proof -
  note l = loop_inv [OF assms(1,2,3,4)]
  from l(1) have cons: "consistent s" and ref: "op n < length (heap s)"
    and fresh: "\<forall>m\<in>set (op_nodes (new_dag s)). op m \<noteq> op n"
    by (auto simp: sched_inv_def)
  from assms(1,3) have dist: "distinct (node_bits n)" by (simp add: wf_input_def)
  from schedule_node_Inr [OF assms(5) ref] obtain d
    where d: "durations (heap s ! op n) (qargs n) u = Some d" and s': "s' = placed u n d s"
    by blast
  note step = placed_step [OF cons dist ref fresh, of u d]
  from d step(2) step(3) show ?thesis
    unfolding s' Let_def by blast
qed

lemma heap_placed:
  assumes "op n < length (heap s)"
  shows "\<exists>xs. heap (placed u n d s) =
     list_update (heap s @ xs) (op n) ((heap s ! op n)\<lparr>op_duration := Some d, op_unit := u\<rparr>)"
proof -
  obtain xs where "heap (padded u n s) = heap s @ xs" using heap_padded by blast
  then show ?thesis by (auto simp: placed_def Let_def)
qed

lemma op_nodes_pad1_mono: "set (op_nodes (new_dag s)) \<subseteq> set (op_nodes (new_dag (pad1 b until u s)))"
  by (auto simp: pad1_def apply_operation_back_def)

lemma op_nodes_pad_with_delays_mono:
  "set (op_nodes (new_dag s)) \<subseteq> set (op_nodes (new_dag (pad_with_delays bs until u s)))"
proof (induction bs arbitrary: s)
  case Nil
  then show ?case by simp
next
  case (Cons b bs)
  from op_nodes_pad1_mono [of s b until u] Cons.IH [of "pad1 b until u s"]
  show ?case by (simp add: pad_with_delays_Cons del: pad_with_delays.simps(2))
qed

lemma op_nodes_placed: "set (op_nodes (new_dag (placed u n d s))) \<supseteq> insert n (set (op_nodes (new_dag s)))"
  using op_nodes_pad_with_delays_mono [of "s\<lparr>bit_time_available := fold touch (node_bits n) (bit_time_available s)\<rparr>"]
  by (auto simp: placed_def Let_def padded_def apply_operation_back_def)

lemma schedule_nodes_heap:
  assumes "schedule_nodes durations u ns s = Inr s'" and "\<forall>n\<in>set ns. op n < length (heap s)"
  shows "length (heap s) \<le> length (heap s') \<and>
     (\<forall>r<length (heap s). r \<notin> op ` set ns \<longrightarrow> heap s' ! r = heap s ! r) \<and>
     (\<forall>r<length (heap s). op_class (heap s' ! r) = op_class (heap s ! r)) \<and>
     (\<forall>r<length (heap s). timed u (heap s ! r) \<longrightarrow> timed u (heap s' ! r)) \<and>
     (\<forall>n\<in>set ns. timed u (heap s' ! op n)) \<and>
     set (op_nodes (new_dag s)) \<union> set ns \<subseteq> set (op_nodes (new_dag s'))"
  using assms
proof (induction ns arbitrary: s)
  case Nil
  then show ?case by simp
next
  case (Cons n ns)
  from Cons.prems(1) obtain s1 where s1: "schedule_node durations u n s = Inr s1"
    and rest: "schedule_nodes durations u ns s1 = Inr s'"
    by (auto split: sum.splits)
  from Cons.prems(2) have ref: "op n < length (heap s)" by simp
  from schedule_node_Inr [OF s1 ref] obtain d where s1': "s1 = placed u n d s" by blast
  obtain xs where h1: "heap s1 =
      list_update (heap s @ xs) (op n) ((heap s ! op n)\<lparr>op_duration := Some d, op_unit := u\<rparr>)"
    unfolding s1' using heap_placed [OF ref] by blast
  have len: "length (heap s) \<le> length (heap s1)" by (simp add: h1)
  have at: "heap s1 ! r = (if r = op n then (heap s ! op n)\<lparr>op_duration := Some d, op_unit := u\<rparr>
      else heap s ! r)" if "r < length (heap s)" for r
    using that by (auto simp: h1 nth_list_update nth_append)
  from Cons.prems(2) len have refs1: "\<forall>k\<in>set ns. op k < length (heap s1)" by fastforce
  note IH = Cons.IH [OF rest refs1]
  have nodes1: "insert n (set (op_nodes (new_dag s))) \<subseteq> set (op_nodes (new_dag s1))"
    unfolding s1' by (rule op_nodes_placed)
  have "length (heap s) \<le> length (heap s')" using len IH by linarith
  moreover have "\<forall>r<length (heap s). r \<notin> op ` set (n # ns) \<longrightarrow> heap s' ! r = heap s ! r"
    using IH len at by fastforce
  moreover have "\<forall>r<length (heap s). op_class (heap s' ! r) = op_class (heap s ! r)"
    using IH len at by fastforce
  moreover have t1: "\<forall>r<length (heap s). timed u (heap s ! r) \<longrightarrow> timed u (heap s1 ! r)"
    using at by (auto simp: timed_def)
  then have "\<forall>r<length (heap s). timed u (heap s ! r) \<longrightarrow> timed u (heap s' ! r)"
    using IH len by fastforce
  moreover have "timed u (heap s1 ! op n)" using at [OF ref] by (simp add: timed_def)
  then have "\<forall>k\<in>set (n # ns). timed u (heap s' ! op k)"
    using IH ref len by fastforce
  moreover have "set (op_nodes (new_dag s)) \<union> set (n # ns) \<subseteq> set (op_nodes (new_dag s'))"
    using IH nodes1 by auto
  ultimately show ?case by blast
qed

lemma finish_heap:
  assumes "finish dag u s = Inr sf"
  shows "(\<exists>xs. heap sf = heap s @ xs) \<and> set (op_nodes (new_dag s)) \<subseteq> set (op_nodes (new_dag sf))"
proof -
  note f = finish_Inr [OF assms]
  show ?thesis
    by (subst (1 2) f(2)) (simp add: heap_pad_with_delays op_nodes_pad_with_delays_mono)
qed

lemma length_assign_timing [simp]: "length (assign_timing durations u n h) = length h"
  by (simp add: assign_timing_def)

lemma length_fold_assign_timing [simp]:
  "length (fold (assign_timing durations u) ns h) = length h"
  by (induction ns arbitrary: h) simp_all

lemma take_assign_timing:
  "op n < k \<Longrightarrow> take k (assign_timing durations u n h) = assign_timing durations u n (take k h)"
  by (simp add: assign_timing_def take_update_swap)

lemma take_fold_assign_timing:
  "\<forall>n\<in>set ns. op n < k \<Longrightarrow>
   take k (fold (assign_timing durations u) ns h) = fold (assign_timing durations u) ns (take k h)"
  by (induction ns arbitrary: h) (simp_all add: take_assign_timing)

lemma fold_assign_timing_other:
  "r \<notin> op ` set ns \<Longrightarrow> fold (assign_timing durations u) ns h ! r = h ! r"
  by (induction ns arbitrary: h) (auto simp: assign_timing_def)

lemma fold_assign_timing_distinct:
  assumes "distinct (map op ns)" and "\<forall>n\<in>set ns. op n < length h" and "n \<in> set ns"
  shows "fold (assign_timing durations u) ns h ! op n =
     (h ! op n)\<lparr>op_duration := durations (h ! op n) (qargs n) u, op_unit := u\<rparr>"
  using assms
proof (induction ns arbitrary: h)
  case Nil
  then show ?case by simp
next
  case (Cons m ns)
  let ?h1 = "assign_timing durations u m h"
  from Cons.prems(1) have fresh: "op m \<notin> op ` set ns" and d: "distinct (map op ns)" by auto
  from Cons.prems(2) have refs: "\<forall>k\<in>set ns. op k < length ?h1" and m: "op m < length h" by simp_all
  show ?case
  proof (cases "n = m")
    case True
    have "fold (assign_timing durations u) ns ?h1 ! op m = ?h1 ! op m"
      using fresh by (rule fold_assign_timing_other)
    moreover have "?h1 ! op m = (h ! op m)\<lparr>op_duration := durations (h ! op m) (qargs m) u, op_unit := u\<rparr>"
      using m by (simp add: assign_timing_def)
    ultimately show ?thesis using True by simp
  next
    case False
    with Cons.prems(3) have n: "n \<in> set ns" by simp
    then have "op n \<in> op ` set ns" by (rule imageI)
    with fresh have "op n \<noteq> op m" by metis
    then have "?h1 ! op n = h ! op n" by (simp add: assign_timing_def)
    with Cons.IH [OF d refs n] show ?thesis by simp
  qed
qed

lemma take_heap_placed:
  assumes "op n < length (heap s)" and "durations (heap s ! op n) (qargs n) u = Some d"
  shows "take (length (heap s)) (heap (placed u n d s)) = assign_timing durations u n (heap s)"
proof -
  obtain xs where "heap (placed u n d s) =
     list_update (heap s @ xs) (op n) ((heap s ! op n)\<lparr>op_duration := Some d, op_unit := u\<rparr>)"
    using heap_placed [OF assms(1)] by blast
  with assms show ?thesis
    by (simp add: assign_timing_def take_update_swap list_update_append1)
qed

lemma schedule_nodes_take_heap:
  assumes "schedule_nodes durations u ns s = Inr s'" and "\<forall>n\<in>set ns. op n < length (heap s)"
  shows "take (length (heap s)) (heap s') = fold (assign_timing durations u) ns (heap s)"
  using assms
proof (induction ns arbitrary: s)
  case Nil
  then show ?case by simp
next
  case (Cons n ns)
  from Cons.prems(1) obtain s1 where s1: "schedule_node durations u n s = Inr s1"
    and rest: "schedule_nodes durations u ns s1 = Inr s'"
    by (auto split: sum.splits)
  from Cons.prems(2) have ref: "op n < length (heap s)" and refs: "\<forall>k\<in>set ns. op k < length (heap s)"
    by simp_all
  from schedule_node_Inr [OF s1 ref] obtain d
    where d: "durations (heap s ! op n) (qargs n) u = Some d" and s1': "s1 = placed u n d s"
    by blast
  have t1: "take (length (heap s)) (heap s1) = assign_timing durations u n (heap s)"
    unfolding s1' using ref d by (rule take_heap_placed)
  then have "length (take (length (heap s)) (heap s1)) = length (heap s)" by simp
  then have len: "length (heap s) \<le> length (heap s1)" by simp
  with refs have refs1: "\<forall>k\<in>set ns. op k < length (heap s1)" by fastforce
  have "take (length (heap s)) (heap s') = take (length (heap s)) (take (length (heap s1)) (heap s'))"
    using len by (simp add: min_def)
  also have "\<dots> = take (length (heap s)) (fold (assign_timing durations u) ns (heap s1))"
    by (simp only: Cons.IH [OF rest refs1])
  also have "\<dots> = fold (assign_timing durations u) ns (take (length (heap s)) (heap s1))"
    using refs by (rule take_fold_assign_timing)
  finally show ?case by (simp add: t1)
qed

lemma read_graph_cong:
  assumes "\<forall>n\<in>set (op_nodes d). h' ! op n = h ! op n"
  shows "read_graph h' d = read_graph h d"
  using assms by (simp add: read_graph_def)

text \<open>
  Claim C8, as the code has it. The graph returned holds every node of the input graph
  with the same operation object. Of the objects that exist before the run, the run
  changes what \<open>assign_timing\<close> changes, node after node in the order of traversal, and
  nothing else: so the input graph read after the run is the input graph, node list,
  operands, conditions and metadata, with these assignments made to its operation objects.
  If every node has an object of its own, each object ends with the duration the provider
  resolves for it as it was before the run, and with the scheduling unit. In any case the
  class of an object stays, its unit becomes the scheduling unit and its duration is set;
  the objects the input graph does not refer to are as they were.
\<close>

theorem C8_run_overwrites_operation_timing:
  assumes "ASAPSchedule_run durations ps h dag tu = Inr s"
    and "\<forall>n\<in>set (op_nodes dag). op n < length h"
  shows "take (length h) (heap s) = fold (assign_timing durations (resolve_time_unit tu ps)) (op_nodes dag) h \<and>
     read_graph (heap s) dag =
       read_graph (fold (assign_timing durations (resolve_time_unit tu ps)) (op_nodes dag) h) dag \<and>
     (distinct (map op (op_nodes dag)) \<longrightarrow>
        (\<forall>n\<in>set (op_nodes dag). heap s ! op n =
           (h ! op n)\<lparr>op_duration := durations (h ! op n) (qargs n) (resolve_time_unit tu ps),
                       op_unit := resolve_time_unit tu ps\<rparr>)) \<and>
     length h \<le> length (heap s) \<and>
     (\<forall>r<length h. r \<notin> op ` set (op_nodes dag) \<longrightarrow> heap s ! r = h ! r) \<and>
     (\<forall>n\<in>set (op_nodes dag).
        n \<in> set (op_nodes (new_dag s)) \<and>
        op_class (heap s ! op n) = op_class (h ! op n) \<and>
        op_unit (heap s ! op n) = resolve_time_unit tu ps \<and>
        op_duration (heap s ! op n) \<noteq> None)"
proof -
  let ?u = "resolve_time_unit tu ps"
  let ?w = "fold (assign_timing durations ?u) (op_nodes dag) h"
  from run_Inr [OF assms(1)] obtain s0 where
    loop: "schedule_nodes durations ?u (op_nodes dag) (initial_sched h dag) = Inr s0"
    and fin: "finish dag ?u s0 = Inr s"
    by blast
  have h0: "heap (initial_sched h dag) = h" by (simp add: initial_sched_eq)
  from assms(2) have refs: "\<forall>n\<in>set (op_nodes dag). op n < length (heap (initial_sched h dag))"
    by (simp add: h0)
  note l = schedule_nodes_heap [OF loop refs, unfolded h0]
  note t = schedule_nodes_take_heap [OF loop refs, unfolded h0]
  from finish_heap [OF fin] obtain xs where hs: "heap s = heap s0 @ xs"
    and nodes: "set (op_nodes (new_dag s0)) \<subseteq> set (op_nodes (new_dag s))"
    by blast
  from l have len0: "length h \<le> length (heap s0)" by simp
  have at: "heap s ! r = heap s0 ! r" if "r < length h" for r
    using that l by (simp add: hs nth_append)
  have tk: "take (length h) (heap s) = ?w"
    using len0 t by (simp add: hs)
  have atw: "heap s ! r = ?w ! r" if "r < length h" for r
  proof -
    from that have "heap s ! r = take (length h) (heap s) ! r" by simp
    then show ?thesis by (simp only: tk)
  qed
  have rg: "read_graph (heap s) dag = read_graph ?w dag"
    using assms(2) atw by (intro read_graph_cong) simp
  have dist: "\<forall>n\<in>set (op_nodes dag). heap s ! op n =
           (h ! op n)\<lparr>op_duration := durations (h ! op n) (qargs n) ?u, op_unit := ?u\<rparr>"
    if "distinct (map op (op_nodes dag))"
  proof
    fix n assume n: "n \<in> set (op_nodes dag)"
    with assms(2) have "heap s ! op n = ?w ! op n" by (simp add: atw)
    also have "\<dots> = (h ! op n)\<lparr>op_duration := durations (h ! op n) (qargs n) ?u, op_unit := ?u\<rparr>"
      using that assms(2) n by (rule fold_assign_timing_distinct)
    finally show "heap s ! op n =
           (h ! op n)\<lparr>op_duration := durations (h ! op n) (qargs n) ?u, op_unit := ?u\<rparr>" .
  qed
  have "length h \<le> length (heap s)" using l by (simp add: hs)
  moreover have "\<forall>r<length h. r \<notin> op ` set (op_nodes dag) \<longrightarrow> heap s ! r = h ! r"
    using l at by simp
  moreover have "\<forall>n\<in>set (op_nodes dag).
        n \<in> set (op_nodes (new_dag s)) \<and>
        op_class (heap s ! op n) = op_class (h ! op n) \<and>
        op_unit (heap s ! op n) = ?u \<and>
        op_duration (heap s ! op n) \<noteq> None"
  proof
    fix n assume n: "n \<in> set (op_nodes dag)"
    with assms(2) have r: "op n < length h" by simp
    from n l nodes have "n \<in> set (op_nodes (new_dag s))" by auto
    moreover from l r have "op_class (heap s0 ! op n) = op_class (h ! op n)" by simp
    moreover from l n have "timed ?u (heap s0 ! op n)" by simp
    ultimately show "n \<in> set (op_nodes (new_dag s)) \<and>
        op_class (heap s ! op n) = op_class (h ! op n) \<and>
        op_unit (heap s ! op n) = ?u \<and>
        op_duration (heap s ! op n) \<noteq> None"
      by (simp add: at [OF r] timed_def)
  qed
  ultimately show ?thesis using tk rg dist by blast
qed

lemmas asap_eval = ASAPSchedule_run_def resolve_time_unit_def initial_sched_def add_qreg_def
  add_creg_def DAGCircuit_def schedule_node_def node_bits_def avail_def touch_def Let_def
  apply_operation_back_def new_Delay_def finish_def qubits_def clbits_def

lemma run_scenario_A:
  "ASAPSchedule_run scenario_A_durations None scenario_A_store scenario_A (Some ''dt'')
     = Inr scenario_A_scheduled"
  by (simp add: asap_eval scenario_A_store_def scenario_A_def scenario_A_durations_def
      scenario_A_scheduled_def upt_3)

lemma run_scenario_B:
  "ASAPSchedule_run scenario_B_durations None scenario_B_store scenario_B (Some ''dt'')
     = Inr scenario_B_scheduled"
  by (simp add: asap_eval scenario_B_store_def scenario_B_def scenario_B_durations_def
      scenario_B_scheduled_def upt_2)

lemma wf_scenario_A: "wf_input scenario_A_store scenario_A"
  by (simp add: wf_input_def scenario_A_store_def scenario_A_def node_bits_def qubits_def upt_3)

lemma nonneg_scenario_A: "nonneg_durations scenario_A_durations"
  by (simp add: nonneg_durations_def scenario_A_durations_def)

lemma lane_scenario_A_q1:
  "lane scenario_A_scheduled (Qubit ''q'' 1) =
     [(0, [Qubit ''q'' 1], \<lparr>op_class = Delay, op_duration = Some 5, op_unit = Some ''dt''\<rparr>),
      (5, [Qubit ''q'' 0, Qubit ''q'' 1],
       \<lparr>op_class = Other ''op2'', op_duration = Some 3, op_unit = Some ''dt''\<rparr>)]"
  by (simp add: lane_def lane_view_def scenario_A_scheduled_def node_bits_def)

lemma unconditioned_scenario_A: "unconditioned scenario_A"
  by (simp add: unconditioned_def scenario_A_def)

lemma unconditioned_scenario_B: "unconditioned scenario_B"
  by (simp add: unconditioned_def scenario_B_def)

theorem C3_lanes_contiguous_witness:
  "wf_input scenario_A_store scenario_A \<and> nonneg_durations scenario_A_durations \<and>
   unconditioned scenario_A \<and>
   ASAPSchedule_run scenario_A_durations None scenario_A_store scenario_A (Some ''dt'')
     = Inr scenario_A_scheduled \<and>
   length (lane scenario_A_scheduled (Qubit ''q'' 1)) = 2 \<and>
   entry_start (hd (lane scenario_A_scheduled (Qubit ''q'' 1))) = 0 \<and>
   entry_start (lane scenario_A_scheduled (Qubit ''q'' 1) ! 1) =
     entry_start (lane scenario_A_scheduled (Qubit ''q'' 1) ! 0) +
     entry_duration (lane scenario_A_scheduled (Qubit ''q'' 1) ! 0)"
proof -
  have two: "length (lane scenario_A_scheduled (Qubit ''q'' 1)) = 2"
    by (simp add: lane_scenario_A_q1 del: One_nat_def)
  from C3_lanes_contiguous [OF run_scenario_A wf_scenario_A nonneg_scenario_A unconditioned_scenario_A,
      of "Qubit ''q'' 1"] two
  have "entry_start (hd (lane scenario_A_scheduled (Qubit ''q'' 1))) = 0 \<and>
    entry_start (lane scenario_A_scheduled (Qubit ''q'' 1) ! Suc 0) =
     entry_start (lane scenario_A_scheduled (Qubit ''q'' 1) ! 0) +
     entry_duration (lane scenario_A_scheduled (Qubit ''q'' 1) ! 0)"
    by fastforce
  with two wf_scenario_A nonneg_scenario_A unconditioned_scenario_A run_scenario_A show ?thesis
    by (simp del: One_nat_def) simp
qed

lemma loop_scenario_A:
  "schedule_nodes scenario_A_durations (resolve_time_unit (Some ''dt'') None) (op_nodes scenario_A)
     (initial_sched scenario_A_store scenario_A) = Inr scenario_A_loop_end"
  by (simp add: asap_eval scenario_A_store_def scenario_A_def scenario_A_durations_def
      scenario_A_loop_end_def)

lemma run_scenario_B_zero:
  "ASAPSchedule_run zero_durations None scenario_B_store scenario_B (Some ''dt'')
     = Inr scenario_B_zero_scheduled"
  by (simp add: asap_eval scenario_B_store_def scenario_B_def zero_durations_def
      scenario_B_zero_scheduled_def upt_2)

lemma wf_scenario_B: "wf_input scenario_B_store scenario_B"
  by (simp add: wf_input_def scenario_B_store_def scenario_B_def node_bits_def qubits_def upt_2)

lemma nonneg_zero_durations: "nonneg_durations zero_durations"
  by (simp add: nonneg_durations_def zero_durations_def)

theorem C2_total_duration_is_lane_end_witness:
  "wf_input scenario_A_store scenario_A \<and> nonneg_durations scenario_A_durations \<and>
   unconditioned scenario_A \<and> unconditioned scenario_B \<and>
   ASAPSchedule_run scenario_A_durations None scenario_A_store scenario_A (Some ''dt'')
     = Inr scenario_A_scheduled \<and>
   duration (new_dag scenario_A_scheduled) = Some 8 \<and>
   last_end (lane scenario_A_scheduled (Qubit ''q'' 1)) = 8 \<and>
   Max (avail (bit_time_available scenario_A_loop_end) ` fst ` set (bit_time_available scenario_A_loop_end)) = 8 \<and>
   wf_input scenario_B_store scenario_B \<and> nonneg_durations zero_durations \<and>
   ASAPSchedule_run zero_durations None scenario_B_store scenario_B (Some ''dt'')
     = Inr scenario_B_zero_scheduled \<and>
   lane scenario_B_zero_scheduled (Qubit ''q'' 1) = [] \<and>
   duration (new_dag scenario_B_zero_scheduled) = Some 0"
proof -
  have d: "duration (new_dag scenario_A_scheduled) = Some 8"
    by (simp add: scenario_A_scheduled_def)
  have q: "Qubit ''q'' 1 \<in> set (qubits (new_dag scenario_A_scheduled) @ clbits (new_dag scenario_A_scheduled))"
    by (simp add: scenario_A_scheduled_def qubits_def upt_3)
  have ne: "lane scenario_A_scheduled (Qubit ''q'' 1) \<noteq> []"
    by (simp add: lane_scenario_A_q1 del: One_nat_def)
  from C2_total_duration_is_lane_end [OF run_scenario_A wf_scenario_A nonneg_scenario_A
      unconditioned_scenario_A]
  obtain cd where dur: "duration (new_dag scenario_A_scheduled) = Some cd"
    and full: "\<forall>b\<in>set (qubits (new_dag scenario_A_scheduled) @ clbits (new_dag scenario_A_scheduled)).
        lane scenario_A_scheduled b \<noteq> [] \<longrightarrow> last_end (lane scenario_A_scheduled b) = cd"
    and mx: "\<forall>s0. schedule_nodes scenario_A_durations (resolve_time_unit (Some ''dt'') None)
          (op_nodes scenario_A) (initial_sched scenario_A_store scenario_A) = Inr s0 \<longrightarrow>
        cd = Max (avail (bit_time_available s0) ` fst ` set (bit_time_available s0))"
    by blast
  from dur d have cd: "cd = 8" by simp
  from full q ne have "last_end (lane scenario_A_scheduled (Qubit ''q'' 1)) = cd" by blast
  moreover from mx loop_scenario_A
  have "cd = Max (avail (bit_time_available scenario_A_loop_end) ` fst ` set (bit_time_available scenario_A_loop_end))"
    by blast
  ultimately have a: "last_end (lane scenario_A_scheduled (Qubit ''q'' 1)) = 8 \<and>
    Max (avail (bit_time_available scenario_A_loop_end) ` fst ` set (bit_time_available scenario_A_loop_end)) = 8"
    using cd by simp
  have q': "Qubit ''q'' 1 \<in> set (qubits (new_dag scenario_B_zero_scheduled) @ clbits (new_dag scenario_B_zero_scheduled))"
    by (simp add: scenario_B_zero_scheduled_def qubits_def upt_2)
  have e: "lane scenario_B_zero_scheduled (Qubit ''q'' 1) = []"
    by (simp add: lane_def lane_view_def scenario_B_zero_scheduled_def node_bits_def)
  from C2_total_duration_is_lane_end [OF run_scenario_B_zero wf_scenario_B nonneg_zero_durations
      unconditioned_scenario_B]
  obtain cd' where dur': "duration (new_dag scenario_B_zero_scheduled) = Some cd'"
    and emp: "\<forall>b\<in>set (qubits (new_dag scenario_B_zero_scheduled) @ clbits (new_dag scenario_B_zero_scheduled)).
        lane scenario_B_zero_scheduled b = [] \<longrightarrow> cd' = 0"
    by blast
  from emp q' e have "cd' = 0" by blast
  with dur' have b: "duration (new_dag scenario_B_zero_scheduled) = Some 0" by simp
  from a b d e wf_scenario_A nonneg_scenario_A run_scenario_A wf_scenario_B nonneg_zero_durations
    run_scenario_B_zero unconditioned_scenario_A unconditioned_scenario_B
  show ?thesis by blast
qed

lemma run_shared_gate:
  "ASAPSchedule_run shared_gate_durations None shared_store shared_gate (Some ''dt'')
     = Inr shared_gate_scheduled"
  by (simp add: asap_eval shared_store_def shared_gate_def shared_gate_durations_def
      shared_gate_scheduled_def upt_2)

lemma run_shared_tail:
  "ASAPSchedule_run shared_tail_durations None shared_tail_store shared_tail (Some ''dt'')
     = Inr shared_tail_scheduled"
  by (simp add: asap_eval shared_tail_store_def shared_tail_def shared_tail_durations_def
      shared_tail_scheduled_def upt_2)

lemma lane_shared_gate_q0:
  "lane shared_gate_scheduled (Qubit ''q'' 0) =
     [(0, [Qubit ''q'' 0], \<lparr>op_class = Other ''g'', op_duration = Some 7, op_unit = Some ''dt''\<rparr>),
      (5, [Qubit ''q'' 0], \<lparr>op_class = Delay, op_duration = Some 2, op_unit = Some ''dt''\<rparr>)]"
  by (simp add: lane_def lane_view_def shared_gate_scheduled_def node_bits_def)

lemma lane_shared_tail_q1:
  "lane shared_tail_scheduled (Qubit ''q'' 1) =
     [(0, [Qubit ''q'' 1], \<lparr>op_class = Other ''k'', op_duration = Some 2, op_unit = Some ''dt''\<rparr>),
      (2, [Qubit ''q'' 1], \<lparr>op_class = Other ''g'', op_duration = Some 7, op_unit = Some ''dt''\<rparr>)]"
  by (simp add: lane_def lane_view_def shared_tail_scheduled_def node_bits_def)

text \<open>
  Claim C3 as stated speaks of every graph returned. In \<open>shared_gate\<close> one gate object lies
  on qubit 0, where it takes 5, and on qubit 1, where it takes 7. The second write of the
  duration replaces the first: in the graph returned, lane 0 holds the gate at 0 with
  duration 7 and then a delay that starts at 5.
\<close>

theorem C3_shared_operation_counterexample:
  "ASAPSchedule_run shared_gate_durations None shared_store shared_gate (Some ''dt'')
     = Inr shared_gate_scheduled \<and>
   length (lane shared_gate_scheduled (Qubit ''q'' 0)) = 2 \<and>
   entry_start (lane shared_gate_scheduled (Qubit ''q'' 0) ! 0) = 0 \<and>
   entry_duration (lane shared_gate_scheduled (Qubit ''q'' 0) ! 0) = 7 \<and>
   entry_start (lane shared_gate_scheduled (Qubit ''q'' 0) ! 1) = 5"
  by (simp add: run_shared_gate lane_shared_gate_q0 entry_start_def entry_duration_def entry_op_def)

text \<open>
  Claim C2 as stated speaks of every graph returned. For \<open>shared_tail\<close> the duration
  recorded is 7, while on lane 1 the last operation, the gate placed at 2 whose object
  now reads duration 7, ends at 9: the lane is not filled to exactly 7, and the maximum
  over the lanes of the end of the last operation is not 7.
\<close>

theorem C2_shared_operation_counterexample:
  "ASAPSchedule_run shared_tail_durations None shared_tail_store shared_tail (Some ''dt'')
     = Inr shared_tail_scheduled \<and>
   duration (new_dag shared_tail_scheduled) = Some 7 \<and>
   Qubit ''q'' 1 \<in> set (qubits (new_dag shared_tail_scheduled)) \<and>
   last_end (lane shared_tail_scheduled (Qubit ''q'' 1)) = 9"
  by (simp add: run_shared_tail lane_shared_tail_q1 last_end_def entry_start_def
      entry_duration_def entry_op_def del: One_nat_def)
    (simp add: shared_tail_scheduled_def qubits_def upt_2)

lemma scenario_A_split:
  "op_nodes scenario_A =
     [\<lparr>op = 0, qargs = [Qubit ''q'' 0], cargs = [], condition = None\<rparr>]
     @ \<lparr>op = 1, qargs = [Qubit ''q'' 0, Qubit ''q'' 1], cargs = [], condition = None\<rparr>
     # [\<lparr>op = 2, qargs = [Qubit ''q'' 2], cargs = [], condition = None\<rparr>]"
  by (simp add: scenario_A_def)

lemma scenario_A_op1:
  "schedule_nodes scenario_A_durations (Some ''dt'')
     [\<lparr>op = 0, qargs = [Qubit ''q'' 0], cargs = [], condition = None\<rparr>]
     (initial_sched scenario_A_store scenario_A) = Inr scenario_A_after_op1"
  by (simp add: asap_eval scenario_A_store_def scenario_A_def scenario_A_durations_def
      scenario_A_after_op1_def)

lemma scenario_A_op2:
  "schedule_node scenario_A_durations (Some ''dt'')
     \<lparr>op = 1, qargs = [Qubit ''q'' 0, Qubit ''q'' 1], cargs = [], condition = None\<rparr>
     scenario_A_after_op1 = Inr scenario_A_after_op2"
  by (simp add: asap_eval scenario_A_durations_def scenario_A_after_op1_def scenario_A_after_op2_def)

theorem C1_start_time_and_padding_witness:
  "wf_input scenario_A_store scenario_A \<and> nonneg_durations scenario_A_durations \<and>
   last (start_times scenario_A_after_op2) = 5 \<and>
   lane scenario_A_after_op2 (Qubit ''q'' 1) = lane scenario_A_after_op1 (Qubit ''q'' 1) @
     [(0, [Qubit ''q'' 1], new_Delay 5 (Some ''dt'')),
      (5, [Qubit ''q'' 0, Qubit ''q'' 1],
       \<lparr>op_class = Other ''op2'', op_duration = Some 3, op_unit = Some ''dt''\<rparr>)] \<and>
   lane scenario_A_after_op2 (Qubit ''q'' 0) = lane scenario_A_after_op1 (Qubit ''q'' 0) @
     [(5, [Qubit ''q'' 0, Qubit ''q'' 1],
       \<lparr>op_class = Other ''op2'', op_duration = Some 3, op_unit = Some ''dt''\<rparr>)]"
proof -
  let ?n = "\<lparr>op = 1, qargs = [Qubit ''q'' 0, Qubit ''q'' 1], cargs = [], condition = None\<rparr>"
  let ?tt = "bit_time_available scenario_A_after_op1"
  let ?start = "Max (avail ?tt ` set (node_bits ?n))"
  have a0: "avail ?tt (Qubit ''q'' 0) = 5" and a1: "avail ?tt (Qubit ''q'' 1) = 0"
    by (simp_all add: scenario_A_after_op1_def avail_def)
  have start: "?start = 5" by (simp add: node_bits_def a0 a1 del: One_nat_def)
  have x: "heap scenario_A_after_op1 ! op ?n = \<lparr>op_class = Other ''op2'', op_duration = None, op_unit = None\<rparr>"
    by (simp add: scenario_A_after_op1_def)
  from C1_start_time_and_padding [OF wf_scenario_A nonneg_scenario_A scenario_A_split scenario_A_op1 scenario_A_op2]
  obtain d where d: "scenario_A_durations (heap scenario_A_after_op1 ! op ?n) (qargs ?n) (Some ''dt'') = Some d"
    and st: "last (start_times scenario_A_after_op2) = ?start"
    and ln: "\<And>b. lane scenario_A_after_op2 b = lane scenario_A_after_op1 b @
         (if b \<in> set (node_bits ?n) then
            (if avail ?tt b < ?start then [(avail ?tt b, [b], new_Delay (?start - avail ?tt b) (Some ''dt''))] else [])
            @ [(?start, node_bits ?n, (heap scenario_A_after_op1 ! op ?n)\<lparr>op_duration := Some d, op_unit := Some ''dt''\<rparr>)]
          else [])"
    unfolding Let_def by blast
  from d have d3: "d = 3" unfolding x by (simp add: scenario_A_durations_def)
  have bits: "node_bits ?n = [Qubit ''q'' 0, Qubit ''q'' 1]" by (simp add: node_bits_def)
  note ln' = ln [unfolded start, unfolded x d3 bits]
  have "last (start_times scenario_A_after_op2) = 5" using st start by simp
  moreover have "lane scenario_A_after_op2 (Qubit ''q'' 1) = lane scenario_A_after_op1 (Qubit ''q'' 1) @
     [(0, [Qubit ''q'' 1], new_Delay 5 (Some ''dt'')),
      (5, [Qubit ''q'' 0, Qubit ''q'' 1],
       \<lparr>op_class = Other ''op2'', op_duration = Some 3, op_unit = Some ''dt''\<rparr>)]"
    unfolding ln' [of "Qubit ''q'' 1"] a1 by simp
  moreover have "lane scenario_A_after_op2 (Qubit ''q'' 0) = lane scenario_A_after_op1 (Qubit ''q'' 0) @
     [(5, [Qubit ''q'' 0, Qubit ''q'' 1],
       \<lparr>op_class = Other ''op2'', op_duration = Some 3, op_unit = Some ''dt''\<rparr>)]"
    unfolding ln' [of "Qubit ''q'' 0"] a0 by simp
  ultimately show ?thesis using wf_scenario_A nonneg_scenario_A by blast
qed

text \<open>
  Claim C8 as stated says that the operations of the input graph keep their durations and
  units. The node of \<open>scenario_B\<close> holds the object at address 0, which has no duration and
  no unit before the run and duration 4 and unit \<open>dt\<close> after it.
\<close>

theorem C8_input_operation_mutated_counterexample:
  "ASAPSchedule_run scenario_B_durations None scenario_B_store scenario_B (Some ''dt'')
     = Inr scenario_B_scheduled \<and>
   map op (op_nodes scenario_B) = [0] \<and>
   scenario_B_store ! 0 = \<lparr>op_class = Other ''op'', op_duration = None, op_unit = None\<rparr> \<and>
   heap scenario_B_scheduled ! 0 = \<lparr>op_class = Other ''op'', op_duration = Some 4, op_unit = Some ''dt''\<rparr>"
  by (simp add: run_scenario_B) (simp add: scenario_B_def scenario_B_store_def scenario_B_scheduled_def)

lemma run_preset:
  "ASAPSchedule_run scenario_B_durations None preset_store scenario_B (Some ''dt'')
     = Inr preset_scheduled"
  by (simp add: asap_eval preset_store_def scenario_B_def scenario_B_durations_def
      preset_scheduled_def upt_2)

theorem C8_run_overwrites_operation_timing_witness:
  "map op (op_nodes scenario_B) = [0] \<and> length preset_store = 2 \<and>
   ASAPSchedule_run scenario_B_durations None preset_store scenario_B (Some ''dt'')
     = Inr preset_scheduled \<and>
   preset_store ! 0 = \<lparr>op_class = Other ''op'', op_duration = Some 9, op_unit = Some ''s''\<rparr> \<and>
   heap preset_scheduled ! 0 = \<lparr>op_class = Other ''op'', op_duration = Some 4, op_unit = Some ''dt''\<rparr> \<and>
   heap preset_scheduled ! 1 = preset_store ! 1 \<and>
   take 2 (heap preset_scheduled) =
     [\<lparr>op_class = Other ''op'', op_duration = Some 4, op_unit = Some ''dt''\<rparr>,
      \<lparr>op_class = Other ''unused'', op_duration = None, op_unit = None\<rparr>]"
proof -
  let ?n = "\<lparr>op = 0, qargs = [Qubit ''q'' 0], cargs = [], condition = None\<rparr>"
  have refs: "\<forall>n\<in>set (op_nodes scenario_B). op n < length preset_store"
    by (simp add: scenario_B_def preset_store_def)
  have nodes: "op_nodes scenario_B = [?n]" by (simp add: scenario_B_def)
  have d: "distinct (map op (op_nodes scenario_B))" by (simp add: nodes)
  have n: "?n \<in> set (op_nodes scenario_B)" by (simp add: nodes)
  have l: "(1::nat) < length preset_store" "1 \<notin> op ` set (op_nodes scenario_B)"
    by (simp_all add: nodes preset_store_def)
  have u: "resolve_time_unit (Some ''dt'') None = Some ''dt''" by (simp add: resolve_time_unit_def)
  have len: "length preset_store = 2" by (simp add: preset_store_def)
  have p0: "preset_store ! 0 = \<lparr>op_class = Other ''op'', op_duration = Some 9, op_unit = Some ''s''\<rparr>"
    by (simp add: preset_store_def)
  note c = C8_run_overwrites_operation_timing [OF run_preset refs, unfolded u]
  from c d n have "heap preset_scheduled ! op ?n =
      (preset_store ! op ?n)\<lparr>op_duration := scenario_B_durations (preset_store ! op ?n) (qargs ?n) (Some ''dt''),
         op_unit := Some ''dt''\<rparr>"
    by blast
  then have h0: "heap preset_scheduled ! 0 = \<lparr>op_class = Other ''op'', op_duration = Some 4, op_unit = Some ''dt''\<rparr>"
    by (simp add: p0 scenario_B_durations_def)
  from c l have h1: "heap preset_scheduled ! 1 = preset_store ! 1" by blast
  from c have "take (length preset_store) (heap preset_scheduled) =
      fold (assign_timing scenario_B_durations (Some ''dt'')) (op_nodes scenario_B) preset_store"
    by blast
  then have tk: "take 2 (heap preset_scheduled) =
     [\<lparr>op_class = Other ''op'', op_duration = Some 4, op_unit = Some ''dt''\<rparr>,
      \<lparr>op_class = Other ''unused'', op_duration = None, op_unit = None\<rparr>]"
    by (simp add: len nodes assign_timing_def scenario_B_durations_def) (simp add: preset_store_def)
  from h0 h1 tk p0 len run_preset nodes show ?thesis by simp
qed

theorem C9_empty_graph_raises_witness:
  "length (qregs (scenario_A\<lparr>op_nodes := []\<rparr>)) = 1 \<and>
   map_of (qregs (scenario_A\<lparr>op_nodes := []\<rparr>)) ''q'' \<noteq> None \<and>
   ASAPSchedule_run scenario_A_durations None scenario_A_store (scenario_A\<lparr>op_nodes := []\<rparr>) (Some ''dt'')
     = Inl ValueError"
proof -
  have a: "length (qregs (scenario_A\<lparr>op_nodes := []\<rparr>)) = 1"
    and b: "map_of (qregs (scenario_A\<lparr>op_nodes := []\<rparr>)) ''q'' \<noteq> None"
    and c: "op_nodes (scenario_A\<lparr>op_nodes := []\<rparr>) = []"
    by (simp_all add: scenario_A_def)
  from C9_empty_graph_raises [OF a b c] a b show ?thesis by simp
qed

end
